theory Spec2Isabelle
  imports Main "HOL-Library.Word"
begin

section \<open>Field elements\<close>

text \<open>
  The BN254 scalar prime. Package \<open>ff\<close> (type \<open>ff.Element\<close>) and package \<open>utils\<close> are
  imported by \<open>poseidon.go\<close>; an element is modelled by its canonical value, an integer,
  and every operation reduces its result modulo the prime. A \<open>*big.Int\<close> is an \<open>int\<close>.
\<close>

definition modulus :: int where
  "modulus = 21888242871839275222246405745257275088548364400416034343698204186575808495617"

text \<open>Modelled from the spec: \<open>Element.Add\<close>, modular addition (section 4.1).\<close>

definition ff_Add :: "int \<Rightarrow> int \<Rightarrow> int" where
  "ff_Add x y = (x + y) mod modulus"

text \<open>Modelled from the spec: \<open>Element.Mul\<close>, modular multiplication (section 4.1).\<close>

definition ff_Mul :: "int \<Rightarrow> int \<Rightarrow> int" where
  "ff_Mul x y = (x * y) mod modulus"

text \<open>Modelled from the spec: \<open>Element.Exp\<close>, the power \<open>x ^ k\<close> modulo the prime
  (section 4.1: "compute a ^ 5 mod p").\<close>

definition ff_Exp :: "int \<Rightarrow> nat \<Rightarrow> int" where
  "ff_Exp x k = (x ^ k) mod modulus"

text \<open>Modelled from the spec: \<open>Element.SetBigInt\<close>, set from an arbitrary-precision
  integer, reduced into the field.\<close>

definition ff_SetBigInt :: "int \<Rightarrow> int" where
  "ff_SetBigInt v = v mod modulus"

text \<open>Modelled from the spec: \<open>Element.ToBigIntRegular\<close>, export to an arbitrary-precision
  integer in canonical form.\<close>

definition ff_ToBigIntRegular :: "int \<Rightarrow> int" where
  "ff_ToBigIntRegular e = e mod modulus"

text \<open>Big-endian reading of a byte string, as \<open>big.Int.SetBytes\<close> does.\<close>

definition SetBytes :: "8 word list \<Rightarrow> int" where
  "SetBytes bs = foldl (\<lambda>acc b. acc * 256 + uint b) 0 bs"

text \<open>Modelled from the spec: \<open>Element.SetBytesLessMod\<close> reads a 31-byte big-endian
  integer, reduced modulo the prime should it exceed it (section 4.1).\<close>

definition ff_SetBytesLessMod :: "8 word list \<Rightarrow> int" where
  "ff_SetBytesLessMod bs = SetBytes bs mod modulus"

text \<open>Modelled from the spec: \<open>Element.Bytes\<close>, the canonical 32-byte big-endian encoding
  of the value, leading zeros preserved (section 6).\<close>

definition ff_Bytes :: "int \<Rightarrow> 8 word list" where
  "ff_Bytes e = map (\<lambda>i. word_of_int ((e mod modulus) div 256 ^ (31 - i))) [0..<32]"

section \<open>Errors, indexing and loops\<close>

text \<open>
  The five errors the package returns, by their message, and the run-time panics of an
  index out of range and of a nil pointer.
\<close>

datatype error =
    InvalidInputsLength
  | InputsNotInField
  | InvalidNOuts
  | InitStateNotInField
  | IncorrectFrameSize
  | IndexOutOfRange
  | NilDereference

definition andThen :: "error + 'a \<Rightarrow> ('a \<Rightarrow> error + 'b) \<Rightarrow> error + 'b" where
  "andThen x f = (case x of Inl e \<Rightarrow> Inl e | Inr v \<Rightarrow> f v)"

text \<open>Go's \<open>xs[i]\<close>: a panic outside \<open>0 \<le> i < len(xs)\<close>. \<open>index_int\<close> is for an
  index expression that can be negative (\<open>t - 2\<close>), \<open>index\<close> for one that cannot.\<close>

definition index_int :: "'a list \<Rightarrow> int \<Rightarrow> error + 'a" where
  "index_int xs i =
     (if 0 \<le> i \<and> i < int (length xs) then Inr (xs ! nat i) else Inl IndexOutOfRange)"

definition index :: "'a list \<Rightarrow> nat \<Rightarrow> error + 'a" where
  "index xs i = (if i < length xs then Inr (xs ! i) else Inl IndexOutOfRange)"

text \<open>\<open>for i := lo; i < hi; i++\<close> with a bound that the body does not change: the body
  runs on each index of \<open>[lo..<hi]\<close> in turn and the first panic ends the loop.\<close>

fun for_range :: "nat list \<Rightarrow> (nat \<Rightarrow> 's \<Rightarrow> error + 's) \<Rightarrow> 's \<Rightarrow> error + 's" where
  "for_range [] body s = Inr s"
| "for_range (i # is) body s =
     (case body i s of Inl e \<Rightarrow> Inl e | Inr s' \<Rightarrow> for_range is body s')"

section \<open>Constants\<close>

definition NROUNDSF :: nat where
  "NROUNDSF = 8"

definition NROUNDSP :: "nat list" where
  "NROUNDSP = [56, 57, 56, 60, 60, 63, 64, 63, 60, 66, 60, 65, 70, 60, 64, 68]"

definition spongeChunkSize :: nat where
  "spongeChunkSize = 31"

definition spongeInputs :: int where
  "spongeInputs = 16"

text \<open>
  The package-level tables \<open>c.c\<close>, \<open>c.s\<close>, \<open>c.m\<close> and \<open>c.p\<close>, each indexed by \<open>t - 2\<close>.
  Their contents are not part of \<open>poseidon.go\<close>; every function that reads them takes them
  as the parameter \<open>cs\<close>.
\<close>

record constants =
  c_c :: "int list list"
  c_s :: "int list list"
  c_m :: "int list list list"
  c_p :: "int list list list"

section \<open>The permutation\<close>

definition zero :: int where
  "zero = 0"

definition exp5 :: "int \<Rightarrow> int" where
  "exp5 a = ff_Exp a 5"

text \<open>\<open>exp5state\<close>: the index stays below \<open>len(state)\<close>, so no panic.\<close>

definition exp5state :: "int list \<Rightarrow> int list" where
  "exp5state state = fold (\<lambda>i st. st[i := exp5 (st ! i)]) [0..<length state] state"

definition ark :: "int list \<Rightarrow> int list \<Rightarrow> nat \<Rightarrow> error + int list" where
  "ark state c it =
     for_range [0..<length state]
       (\<lambda>i st. andThen (index c (it + i)) (\<lambda>ci. Inr (st[i := ff_Add (st ! i) ci])))
       state"

text \<open>
  \<open>mixWithScratch\<close> writes the product into the scratch elements and copies them back
  into the state elements; it returns the state, and the caller's scratch elements keep
  what was written. The elements of \<open>state\<close> and \<open>scratch\<close> are distinct objects in every
  caller, so the two slices are two lists of values.
\<close>

definition mixWithScratch ::
  "int list \<Rightarrow> int list list \<Rightarrow> int list \<Rightarrow> error + (int list \<times> int list)" where
  "mixWithScratch state m scratch =
     andThen
       (for_range [0..<length state]
          (\<lambda>i scr.
             if i < length scr then
               for_range [0..<length state]
                 (\<lambda>j scr'.
                    andThen (index m j) (\<lambda>mj.
                    andThen (index mj i) (\<lambda>mji.
                    Inr (scr'[i := ff_Add (scr' ! i) (ff_Mul mji (state ! j))]))))
                 (scr[i := 0])
             else Inl IndexOutOfRange)
          scratch)
       (\<lambda>scr.
          andThen
            (for_range [0..<length state]
               (\<lambda>i st. andThen (index scr i) (\<lambda>v. Inr (st[i := v])))
               state)
            (\<lambda>st. Inr (st, scr)))"

text \<open>One full round: lines 84-86 and 109-111 of \<open>poseidon.go\<close>.\<close>

definition fullRound ::
  "int list \<Rightarrow> int list list \<Rightarrow> nat \<Rightarrow> int list \<times> int list \<Rightarrow> error + (int list \<times> int list)" where
  "fullRound C M it = (\<lambda>(state, scratch).
     andThen (ark (exp5state state) C it) (\<lambda>state. mixWithScratch state M scratch))"

text \<open>The body of the partial-round loop, lines 94-105. It runs only once
  \<open>NROUNDSP[t-2]\<close> has been read, so \<open>state[0]\<close> exists.\<close>

definition partialRound :: "int list \<Rightarrow> int list \<Rightarrow> nat \<Rightarrow> nat \<Rightarrow> int list \<Rightarrow> error + int list" where
  "partialRound C S t i state0 =
     andThen (index C ((NROUNDSF div 2 + 1) * t + i)) (\<lambda>ci.
     let state = state0[0 := ff_Add (exp5 (state0 ! 0)) ci] in
     andThen
       (for_range [0..<length state]
          (\<lambda>j newState0.
             andThen (index S ((t * 2 - 1) * i + j)) (\<lambda>sj.
             Inr (ff_Add newState0 (ff_Mul sj (state ! j)))))
          zero)
       (\<lambda>newState0.
     andThen
       (for_range [1..<t]
          (\<lambda>k st.
             andThen (index S ((t * 2 - 1) * i + t + k - 1)) (\<lambda>sk.
             Inr (st[k := ff_Add (st ! k) (ff_Mul (st ! 0) sk)])))
          state)
       (\<lambda>state. Inr (state[0 := newState0]))))"

definition hashElements ::
  "constants \<Rightarrow> int list \<Rightarrow> int list \<Rightarrow> error + (int list \<times> int list)" where
  "hashElements cs state scratch =
     (let t = length state; nRoundsF = NROUNDSF in
      andThen (index_int NROUNDSP (int t - 2)) (\<lambda>nRoundsP.
      andThen (index_int (c_c cs) (int t - 2)) (\<lambda>C.
      andThen (index_int (c_s cs) (int t - 2)) (\<lambda>S.
      andThen (index_int (c_m cs) (int t - 2)) (\<lambda>M.
      andThen (index_int (c_p cs) (int t - 2)) (\<lambda>P.
      andThen (ark state C 0) (\<lambda>state.
      andThen (for_range [0..<nRoundsF div 2 - 1]
                 (\<lambda>i. fullRound C M ((i + 1) * t)) (state, scratch)) (\<lambda>(state, scratch).
      andThen (ark (exp5state state) C ((nRoundsF div 2) * t)) (\<lambda>state.
      andThen (mixWithScratch state P scratch) (\<lambda>(state, scratch).
      andThen (for_range [0..<nRoundsP] (partialRound C S t) state) (\<lambda>state.
      andThen (for_range [0..<nRoundsF div 2 - 1]
                 (\<lambda>i. fullRound C M ((nRoundsF div 2 + 1) * t + nRoundsP + i * t))
                 (state, scratch)) (\<lambda>(state, scratch).
      mixWithScratch (exp5state state) M scratch))))))))))))"

section \<open>Fixed-input hash\<close>

text \<open>Modelled from the spec: \<open>utils.CheckBigIntInField\<close>; an integer \<open>\<ge> p\<close> is not in
  the field (section 7).\<close>

definition CheckBigIntInField :: "int \<Rightarrow> bool" where
  "CheckBigIntInField a = (a < modulus)"

text \<open>Modelled from the spec: \<open>utils.CheckBigIntArrayInField\<close>, the same test on every
  input.\<close>

definition CheckBigIntArrayInField :: "int list \<Rightarrow> bool" where
  "CheckBigIntArrayInField arr = list_all CheckBigIntInField arr"

text \<open>Modelled from the spec: \<open>utils.BigIntArrayToElementArray\<close>, one new element per
  input, order preserved (section 4.3).\<close>

definition BigIntArrayToElementArray :: "int list \<Rightarrow> int list" where
  "BigIntArrayToElementArray bi = map ff_SetBigInt bi"

text \<open>
  \<open>HashWithStateEx\<close>: \<open>nOuts\<close> is a Go \<open>int\<close>. The state is \<open>state[0]\<close> followed by the
  \<open>t - 1\<close> elements that \<open>copy(state[1:], inp)\<close> stores.
\<close>

definition HashWithStateEx :: "constants \<Rightarrow> int list \<Rightarrow> int \<Rightarrow> int \<Rightarrow> error + int list" where
  "HashWithStateEx cs inpBI initState nOuts =
     (let t = length inpBI + 1 in
      if length inpBI = 0 \<or> length inpBI > length NROUNDSP then Inl InvalidInputsLength
      else if \<not> CheckBigIntArrayInField inpBI then Inl InputsNotInField
      else if nOuts < 1 \<or> nOuts > int t then Inl InvalidNOuts
      else
        let inp = BigIntArrayToElementArray inpBI in
        if \<not> CheckBigIntInField initState then Inl InitStateNotInField
        else
          let state = ff_SetBigInt initState # take (t - 1) inp;
              scratch = replicate (length state) zero
          in andThen (hashElements cs state scratch) (\<lambda>(state, scratch).
             for_range [0..<nat nOuts]
               (\<lambda>i r. andThen (index state i) (\<lambda>rE. Inr (r[i := ff_ToBigIntRegular rE])))
               (replicate (nat nOuts) 0)))"

definition HashWithState :: "constants \<Rightarrow> int list \<Rightarrow> int \<Rightarrow> error + int" where
  "HashWithState cs inpBI initState =
     (case HashWithStateEx cs inpBI initState 1 of
        Inl err \<Rightarrow> Inl err
      | Inr res \<Rightarrow> index res 0)"

definition Hash :: "constants \<Rightarrow> int list \<Rightarrow> error + int" where
  "Hash cs inpBI = HashWithState cs inpBI 0"

definition HashEx :: "constants \<Rightarrow> int list \<Rightarrow> int \<Rightarrow> error + int list" where
  "HashEx cs inpBI nOuts = HashWithStateEx cs inpBI 0 nOuts"

text \<open>\<open>hashWithStateExBytes\<close> returns \<open>state[0]\<close>; the caller's \<open>state\<close> and \<open>scratch\<close>
  elements have been overwritten, so both lists are returned with it.\<close>

definition hashWithStateExBytes ::
  "constants \<Rightarrow> int list \<Rightarrow> int list \<Rightarrow> error + (int \<times> int list \<times> int list)" where
  "hashWithStateExBytes cs state scratch =
     (if length state = 1 \<or> int (length state) - 1 > int (length NROUNDSP)
      then Inl InvalidInputsLength
      else andThen (hashElements cs state scratch) (\<lambda>(state, scratch).
           andThen (index state 0) (\<lambda>h. Inr (h, state, scratch))))"

section \<open>Sponge\<close>

text \<open>
  The sponge loops carry the frame, \<open>k\<close>, \<open>dirty\<close> and the digest so far; the digest is a
  pointer that is \<open>nil\<close> (\<open>None\<close>) until the first hash. \<open>frameSize\<close> is a Go \<open>int\<close>.
\<close>

definition newFrame :: "int \<Rightarrow> int list" where
  "newFrame frameSize = replicate (nat frameSize) 0"

text \<open>The body of the loop of \<open>SpongeHashX\<close>, lines 323-339.\<close>

definition spongeStep ::
  "constants \<Rightarrow> int \<Rightarrow> int \<Rightarrow> int list \<times> nat \<times> bool \<times> int option
     \<Rightarrow> error + (int list \<times> nat \<times> bool \<times> int option)" where
  "spongeStep cs frameSize v = (\<lambda>(frame, k, dirty, hash).
     if k < length frame then
       let frame = frame[k := v] in
       if int k = frameSize - 1 then
         (case Hash cs frame of
            Inl err \<Rightarrow> Inl err
          | Inr h \<Rightarrow> Inr ((newFrame frameSize)[0 := h], 1, False, Some h))
       else Inr (frame, k + 1, True, hash)
     else Inl IndexOutOfRange)"

definition SpongeHashX :: "constants \<Rightarrow> int list \<Rightarrow> int \<Rightarrow> error + int option" where
  "SpongeHashX cs inputs frameSize =
     (if frameSize < 2 \<or> frameSize > 16 then Inl IncorrectFrameSize
      else
        andThen
          (for_range [0..<length inputs]
             (\<lambda>i. spongeStep cs frameSize (inputs ! i))
             (newFrame frameSize, 0, False, None))
          (\<lambda>(frame, k, dirty, hash).
             if dirty then
               (case Hash cs frame of Inl err \<Rightarrow> Inl err | Inr h \<Rightarrow> Inr (Some h))
             else Inr hash))"

definition SpongeHash :: "constants \<Rightarrow> int list \<Rightarrow> error + int option" where
  "SpongeHash cs inputs = SpongeHashX cs inputs spongeInputs"

text \<open>\<open>msg[spongeChunkSize*i : spongeChunkSize*(i+1)]\<close>, within bounds for
  \<open>i < len(msg)/spongeChunkSize\<close>.\<close>

definition chunk :: "8 word list \<Rightarrow> nat \<Rightarrow> 8 word list" where
  "chunk msg i = take spongeChunkSize (drop (spongeChunkSize * i) msg)"

text \<open>The zero-filled buffer \<open>buf\<close> after \<open>copy(buf[:], msg[(len(msg)/31)*31:])\<close>.\<close>

definition lastChunk :: "8 word list \<Rightarrow> 8 word list" where
  "lastChunk msg =
     (let rest = drop ((length msg div spongeChunkSize) * spongeChunkSize) msg
      in rest @ replicate (spongeChunkSize - length rest) 0)"

text \<open>The body of the loop of \<open>HashBytesX\<close>, lines 261-277.\<close>

definition hashBytesStep ::
  "constants \<Rightarrow> int \<Rightarrow> 8 word list \<Rightarrow> nat \<Rightarrow> int list \<times> nat \<times> bool \<times> int option
     \<Rightarrow> error + (int list \<times> nat \<times> bool \<times> int option)" where
  "hashBytesStep cs frameSize msg i = (\<lambda>(inputs, k, dirty, hash).
     if k < length inputs then
       let inputs = inputs[k := SetBytes (chunk msg i)] in
       if int k = frameSize - 1 then
         (case Hash cs inputs of
            Inl err \<Rightarrow> Inl err
          | Inr h \<Rightarrow> Inr ((newFrame frameSize)[0 := h], 1, False, Some h))
       else Inr (inputs, k + 1, True, hash)
     else Inl IndexOutOfRange)"

definition HashBytesX :: "constants \<Rightarrow> 8 word list \<Rightarrow> int \<Rightarrow> error + int option" where
  "HashBytesX cs msg frameSize =
     (if frameSize < 2 \<or> frameSize > 16 then Inl IncorrectFrameSize
      else
        andThen
          (for_range [0..<length msg div spongeChunkSize]
             (hashBytesStep cs frameSize msg)
             (newFrame frameSize, 0, False, None))
          (\<lambda>(inputs, k, dirty, hash).
        andThen
          (if length msg mod spongeChunkSize \<noteq> 0 then
             (if k < length inputs
              then Inr (inputs[k := SetBytes (lastChunk msg)], True)
              else Inl IndexOutOfRange)
           else Inr (inputs, dirty))
          (\<lambda>(inputs, dirty).
             if dirty then
               (case Hash cs inputs of Inl err \<Rightarrow> Inl err | Inr h \<Rightarrow> Inr (Some h))
             else Inr hash)))"

definition HashBytes :: "constants \<Rightarrow> 8 word list \<Rightarrow> error + int option" where
  "HashBytes cs msg = HashBytesX cs msg spongeInputs"

text \<open>The body of the loop of \<open>HashBytesXLessAlloc\<close>, lines 203-219. The loop carries
  \<open>state\<close>, \<open>scratch\<close>, \<open>k\<close>, \<open>dirty\<close> and \<open>currentHash\<close>. After the hash, \<open>hash\<close> points to
  \<open>state[0]\<close>, whose value \<open>state[0].Set(hash)\<close> keeps.\<close>

definition lessAllocStep ::
  "constants \<Rightarrow> int \<Rightarrow> 8 word list \<Rightarrow> nat \<Rightarrow> int list \<times> int list \<times> nat \<times> bool \<times> int
     \<Rightarrow> error + (int list \<times> int list \<times> nat \<times> bool \<times> int)" where
  "lessAllocStep cs frameSize msg i = (\<lambda>(state, scratch, k, dirty, currentHash).
     if k < length state then
       let state = state[k := ff_SetBytesLessMod (chunk msg i)] in
       if int k = frameSize - 1 then
         (case hashWithStateExBytes cs state scratch of
            Inl err \<Rightarrow> Inl err
          | Inr (hash, state, scratch) \<Rightarrow>
              Inr (fold (\<lambda>j st. st[j := 0]) [1..<length state] (state[0 := hash]),
                   scratch, 1, False, hash))
       else Inr (state, scratch, k + 1, True, currentHash)
     else Inl IndexOutOfRange)"

definition HashBytesXLessAlloc :: "constants \<Rightarrow> 8 word list \<Rightarrow> int \<Rightarrow> error + 8 word list" where
  "HashBytesXLessAlloc cs msg frameSize =
     (if frameSize < 2 \<or> frameSize > 16 then Inl IncorrectFrameSize
      else
        andThen
          (for_range [0..<length msg div spongeChunkSize]
             (lessAllocStep cs frameSize msg)
             (replicate (nat (frameSize + 1)) 0, replicate (nat (frameSize + 1)) 0, 0, False, 0))
          (\<lambda>(state, scratch, k, dirty, currentHash).
        andThen
          (if length msg mod spongeChunkSize \<noteq> 0 then
             (if k < length state
              then Inr (state[k := ff_SetBytesLessMod (lastChunk msg)])
              else Inl IndexOutOfRange)
           else Inr state)
          (\<lambda>state.
        andThen
          (if dirty then
             (case hashWithStateExBytes cs state scratch of
                Inl err \<Rightarrow> Inl err
              | Inr (hash, state, scratch) \<Rightarrow> Inr hash)
           else Inr currentHash)
          (\<lambda>currentHash. Inr (ff_Bytes currentHash)))))"

section \<open>The schedule of section 4.2 and the chunking of section 4.3, as the spec words them\<close>

definition sbox :: "int \<Rightarrow> int" where
  "sbox x = x ^ 5 mod modulus"

text \<open>ARK: add \<open>C[off .. off + t]\<close> into the state, slot by slot.\<close>

definition ark_spec :: "int list \<Rightarrow> int list \<Rightarrow> nat \<Rightarrow> int list" where
  "ark_spec state C off = map (\<lambda>i. (state ! i + C ! (off + i)) mod modulus) [0..<length state]"

text \<open>Mix: output slot \<open>i\<close> is the sum over the input slots \<open>j\<close> of \<open>m[j][i] * state[j]\<close>.\<close>

definition mix_spec :: "int list list \<Rightarrow> int list \<Rightarrow> int list" where
  "mix_spec m state =
     map (\<lambda>i. (\<Sum>j\<leftarrow>[0..<length state]. m ! j ! i * state ! j) mod modulus) [0..<length state]"

text \<open>A full round: S-box on every slot, ARK, mix.\<close>

definition full_round_spec :: "int list \<Rightarrow> int list list \<Rightarrow> nat \<Rightarrow> int list \<Rightarrow> int list" where
  "full_round_spec C m off state = mix_spec m (ark_spec (map sbox state) C off)"

text \<open>
  Partial round \<open>i\<close>: S-box and the constant \<open>C[(F/2+1) t + i]\<close> on slot 0 only; with \<open>pre\<close>
  the slots at that point, the new slot 0 is the sum of \<open>S[(2t-1) i + j] * pre[j]\<close> and slot
  \<open>k \<ge> 1\<close> gains \<open>pre[0] * S[(2t-1) i + t + k - 1]\<close>.
\<close>

definition partial_round_spec :: "int list \<Rightarrow> int list \<Rightarrow> nat \<Rightarrow> nat \<Rightarrow> int list \<Rightarrow> int list" where
  "partial_round_spec C S t i state =
     (let pre = state[0 := (sbox (state ! 0) + C ! ((NROUNDSF div 2 + 1) * t + i)) mod modulus]
      in ((\<Sum>j\<leftarrow>[0..<t]. S ! ((2 * t - 1) * i + j) * pre ! j) mod modulus)
         # map (\<lambda>k. (pre ! k + pre ! 0 * S ! ((2 * t - 1) * i + t + k - 1)) mod modulus) [1..<t])"

definition permute_spec :: "constants \<Rightarrow> int list \<Rightarrow> int list" where
  "permute_spec cs state =
     (let t = length state;
          nP = NROUNDSP ! (t - 2);
          C = c_c cs ! (t - 2);
          S = c_s cs ! (t - 2);
          M = c_m cs ! (t - 2);
          P = c_p cs ! (t - 2);
          s1 = ark_spec state C 0;
          s2 = fold (\<lambda>i. full_round_spec C M ((i + 1) * t)) [0..<3] s1;
          s3 = full_round_spec C P ((NROUNDSF div 2) * t) s2;
          s4 = fold (partial_round_spec C S t) [0..<nP] s3;
          s5 = fold (\<lambda>i. full_round_spec C M ((NROUNDSF div 2 + 1) * t + nP + i * t)) [0..<3] s4
      in mix_spec M (map sbox s5))"

text \<open>The tables for width \<open>t\<close> hold every entry that the permutation reads (section 3 gives the
  table dimensions).\<close>

definition matrix_ok :: "int list list \<Rightarrow> nat \<Rightarrow> bool" where
  "matrix_ok m t = (t \<le> length m \<and> list_all (\<lambda>row. t \<le> length row) (take t m))"

definition tables_ok :: "constants \<Rightarrow> nat \<Rightarrow> bool" where
  "tables_ok cs t =
     (t - 2 < length (c_c cs) \<and> t - 2 < length (c_s cs) \<and>
      t - 2 < length (c_m cs) \<and> t - 2 < length (c_p cs) \<and>
      8 * t + NROUNDSP ! (t - 2) \<le> length (c_c cs ! (t - 2)) \<and>
      (2 * t - 1) * NROUNDSP ! (t - 2) \<le> length (c_s cs ! (t - 2)) \<and>
      matrix_ok (c_m cs ! (t - 2)) t \<and> matrix_ok (c_p cs ! (t - 2)) t)"

definition constants_ok :: "constants \<Rightarrow> bool" where
  "constants_ok cs = list_all (tables_ok cs) [2..<18]"

text \<open>Section 4.3: the message in 31-byte chunks, a short final chunk padded with zero bytes on
  the right, each read as a big-endian integer.\<close>

fun chunks_spec :: "8 word list \<Rightarrow> int list" where
  "chunks_spec msg =
     (if msg = [] then []
      else if length msg < 31 then [SetBytes (msg @ replicate (31 - length msg) 0)]
      else SetBytes (take 31 msg) # chunks_spec (drop 31 msg))"

text \<open>Tables of the right dimensions with small entries, to run the functions on.\<close>

definition small_constants :: constants where
  "small_constants =
     \<lparr> c_c = map (\<lambda>t. map (\<lambda>i. int (i + t)) [0..<8 * t + NROUNDSP ! (t - 2)]) [2..<18],
       c_s = map (\<lambda>t. map (\<lambda>i. int (2 * i + 1)) [0..<(2 * t - 1) * NROUNDSP ! (t - 2)]) [2..<18],
       c_m = map (\<lambda>t. map (\<lambda>j. map (\<lambda>i. int (i + j * t + 1)) [0..<t]) [0..<t]) [2..<18],
       c_p = map (\<lambda>t. map (\<lambda>j. map (\<lambda>i. int (2 * i + j + 1)) [0..<t]) [0..<t]) [2..<18] \<rparr>"

section \<open>The \<open>big.Int\<close> objects of the caller\<close>

text \<open>
  The functions above compute on values. \<open>Hash\<close>, \<open>HashWithState\<close>, \<open>HashWithStateEx\<close> and
  \<open>SpongeHashX\<close> take and return pointers to \<open>big.Int\<close> objects, and \<open>SpongeHashX\<close> stores
  the pointers it is given in its frame. For the effect on the caller's objects the same
  functions are written over a store: the store is the list of all \<open>big.Int\<close> values
  allocated so far, an address is a position in it, and a pointer is an address or \<open>nil\<close>.
  The \<open>ff.Element\<close> objects are of another type and local to a call; they stay values.
\<close>

type_synonym ptr = "nat option"

text \<open>Reading through a pointer; a method call on a nil \<open>*big.Int\<close> panics.\<close>

definition load :: "int list \<Rightarrow> ptr \<Rightarrow> error + int" where
  "load h p =
     (case p of
        None \<Rightarrow> Inl NilDereference
      | Some a \<Rightarrow> if a < length h then Inr (h ! a) else Inl NilDereference)"

text \<open>\<open>big.NewInt(v)\<close> and \<open>new(big.Int)\<close>: a new object at the next address.\<close>

definition NewInt :: "int list \<Rightarrow> int \<Rightarrow> int list \<times> nat" where
  "NewInt h v = (h @ [v], length h)"

text \<open>Modelled from the spec: \<open>utils.CheckBigIntArrayInField\<close> on pointers; it reads the
  inputs in order and stops at the first one outside the field.\<close>

fun CheckBigIntArrayInField_st :: "int list \<Rightarrow> ptr list \<Rightarrow> error + bool" where
  "CheckBigIntArrayInField_st h [] = Inr True"
| "CheckBigIntArrayInField_st h (a # arr) =
     (case load h a of
        Inl e \<Rightarrow> Inl e
      | Inr v \<Rightarrow> if CheckBigIntInField v then CheckBigIntArrayInField_st h arr else Inr False)"

text \<open>Modelled from the spec: \<open>utils.BigIntArrayToElementArray\<close> on pointers; it reads every
  input and builds new elements.\<close>

fun BigIntArrayToElementArray_st :: "int list \<Rightarrow> ptr list \<Rightarrow> error + int list" where
  "BigIntArrayToElementArray_st h [] = Inr []"
| "BigIntArrayToElementArray_st h (a # bi) =
     (case load h a of
        Inl e \<Rightarrow> Inl e
      | Inr v \<Rightarrow>
          (case BigIntArrayToElementArray_st h bi of
             Inl e \<Rightarrow> Inl e
           | Inr es \<Rightarrow> Inr (ff_SetBigInt v # es)))"

text \<open>Lines 159-164: for each output, \<open>r[i] = big.NewInt(0)\<close> and
  \<open>rE.ToBigIntRegular(r[i])\<close>, which writes the value into the new object.\<close>

fun newOutputs ::
  "int list \<Rightarrow> nat list \<Rightarrow> int list \<times> ptr list \<Rightarrow> int list \<times> (error + ptr list)" where
  "newOutputs state [] (h, r) = (h, Inr r)"
| "newOutputs state (i # is) (h, r) =
     (case index state i of
        Inl e \<Rightarrow> (h, Inl e)
      | Inr rE \<Rightarrow>
          (let (h1, a) = NewInt h 0;
               h2 = h1[a := ff_ToBigIntRegular rE]
           in newOutputs state is (h2, r[i := Some a])))"

definition HashWithStateEx_st ::
  "constants \<Rightarrow> int list \<Rightarrow> ptr list \<Rightarrow> ptr \<Rightarrow> int \<Rightarrow> int list \<times> (error + ptr list)" where
  "HashWithStateEx_st cs h inpBI initState nOuts =
     (let t = length inpBI + 1 in
      if length inpBI = 0 \<or> length inpBI > length NROUNDSP then (h, Inl InvalidInputsLength)
      else
        case CheckBigIntArrayInField_st h inpBI of
          Inl e \<Rightarrow> (h, Inl e)
        | Inr inField \<Rightarrow>
            if \<not> inField then (h, Inl InputsNotInField)
            else if nOuts < 1 \<or> nOuts > int t then (h, Inl InvalidNOuts)
            else
              case BigIntArrayToElementArray_st h inpBI of
                Inl e \<Rightarrow> (h, Inl e)
              | Inr inp \<Rightarrow>
                  (case load h initState of
                     Inl e \<Rightarrow> (h, Inl e)
                   | Inr iv \<Rightarrow>
                       if \<not> CheckBigIntInField iv then (h, Inl InitStateNotInField)
                       else
                         let state = ff_SetBigInt iv # take (t - 1) inp;
                             scratch = replicate (length state) zero
                         in case hashElements cs state scratch of
                              Inl e \<Rightarrow> (h, Inl e)
                            | Inr (state, scratch) \<Rightarrow>
                                newOutputs state [0..<nat nOuts]
                                  (h, replicate (nat nOuts) None)))"

definition HashWithState_st ::
  "constants \<Rightarrow> int list \<Rightarrow> ptr list \<Rightarrow> ptr \<Rightarrow> int list \<times> (error + ptr)" where
  "HashWithState_st cs h inpBI initState =
     (case HashWithStateEx_st cs h inpBI initState 1 of
        (h', Inl err) \<Rightarrow> (h', Inl err)
      | (h', Inr res) \<Rightarrow> (h', index res 0))"

text \<open>\<open>Hash\<close>: the capacity element is a new object, \<open>big.NewInt(0)\<close>.\<close>

definition Hash_st :: "constants \<Rightarrow> int list \<Rightarrow> ptr list \<Rightarrow> int list \<times> (error + ptr)" where
  "Hash_st cs h inpBI =
     (let (h1, z) = NewInt h 0 in HashWithState_st cs h1 inpBI (Some z))"

text \<open>\<open>frame[j] = new(big.Int)\<close> for each \<open>j\<close> of a list of indices.\<close>

fun newZeros :: "nat list \<Rightarrow> int list \<times> ptr list \<Rightarrow> int list \<times> ptr list" where
  "newZeros [] (h, frame) = (h, frame)"
| "newZeros (j # js) (h, frame) =
     (let (h1, a) = NewInt h 0 in newZeros js (h1, frame[j := Some a]))"

text \<open>The body of the loop of \<open>SpongeHashX\<close>, lines 323-339, on pointers: \<open>frame[k] =
  inputs[i]\<close> stores the caller's pointer itself.\<close>

definition spongeStep_st ::
  "constants \<Rightarrow> int \<Rightarrow> ptr \<Rightarrow> int list \<times> ptr list \<times> nat \<times> bool \<times> ptr
     \<Rightarrow> int list \<times> (error + (ptr list \<times> nat \<times> bool \<times> ptr))" where
  "spongeStep_st cs frameSize v = (\<lambda>(h, frame, k, dirty, hash).
     if k < length frame then
       let frame = frame[k := v] in
       if int k = frameSize - 1 then
         (case Hash_st cs h frame of
            (h1, Inl err) \<Rightarrow> (h1, Inl err)
          | (h1, Inr hash) \<Rightarrow>
              (let (h2, frame) =
                     newZeros [1..<nat frameSize] (h1, (replicate (nat frameSize) None)[0 := hash])
               in (h2, Inr (frame, 1, False, hash))))
       else (h, Inr (frame, k + 1, True, hash))
     else (h, Inl IndexOutOfRange))"

fun spongeLoop_st ::
  "constants \<Rightarrow> int \<Rightarrow> ptr list \<Rightarrow> int list \<times> ptr list \<times> nat \<times> bool \<times> ptr
     \<Rightarrow> int list \<times> (error + (ptr list \<times> nat \<times> bool \<times> ptr))" where
  "spongeLoop_st cs frameSize [] (h, s) = (h, Inr s)"
| "spongeLoop_st cs frameSize (v # inputs) (h, s) =
     (case spongeStep_st cs frameSize v (h, s) of
        (h1, Inl err) \<Rightarrow> (h1, Inl err)
      | (h1, Inr s1) \<Rightarrow> spongeLoop_st cs frameSize inputs (h1, s1))"

definition SpongeHashX_st ::
  "constants \<Rightarrow> int list \<Rightarrow> ptr list \<Rightarrow> int \<Rightarrow> int list \<times> (error + ptr)" where
  "SpongeHashX_st cs h inputs frameSize =
     (if frameSize < 2 \<or> frameSize > 16 then (h, Inl IncorrectFrameSize)
      else
        let (h0, frame) = newZeros [0..<nat frameSize] (h, replicate (nat frameSize) None) in
        case spongeLoop_st cs frameSize inputs (h0, frame, 0, False, None) of
          (h1, Inl err) \<Rightarrow> (h1, Inl err)
        | (h1, Inr (frame, k, dirty, hash)) \<Rightarrow>
            if dirty then Hash_st cs h1 frame else (h1, Inr hash))"

text \<open>\<open>unchanged h h'\<close>: every object of \<open>h\<close> is in \<open>h'\<close> with the value it had. \<open>fresh h h' p\<close>:
  the pointer \<open>p\<close> is to an object of \<open>h'\<close> that \<open>h\<close> does not have.\<close>

definition unchanged :: "int list \<Rightarrow> int list \<Rightarrow> bool" where
  "unchanged h h' = (length h \<le> length h' \<and> take (length h) h' = h)"

definition fresh :: "int list \<Rightarrow> int list \<Rightarrow> ptr \<Rightarrow> bool" where
  "fresh h h' p = (case p of None \<Rightarrow> False | Some a \<Rightarrow> length h \<le> a \<and> a < length h')"

text \<open>The loop state of \<open>SpongeHashX\<close> on pointers holds, in the store \<open>h\<close>, the values of a
  loop state on values: the frame's pointers are to objects with the frame's values, and the
  digest pointer is nil or points to the digest.\<close>

definition sponge_rel ::
  "int list \<Rightarrow> ptr list \<times> nat \<times> bool \<times> ptr \<Rightarrow> int list \<times> nat \<times> bool \<times> int option \<Rightarrow> bool" where
  "sponge_rel h = (\<lambda>(frame, k, dirty, hash) (fv, kv, dv, hv).
     kv = k \<and> dv = dirty \<and>
     (\<forall>p\<in>set frame. \<exists>a. p = Some a \<and> a < length h) \<and>
     fv = map (\<lambda>p. h ! the p) frame \<and>
     (case hash of None \<Rightarrow> hv = None | Some a \<Rightarrow> a < length h \<and> hv = Some (h ! a)))"


section \<open>Loops and indexing\<close>

lemma andThen_Inr [simp]: "andThen (Inr v) f = f v"
  by (simp add: andThen_def)

lemma andThen_Inl [simp]: "andThen (Inl e) f = Inl e"
  by (simp add: andThen_def)

lemma index_in_range [simp]: "n < length xs \<Longrightarrow> index xs n = Inr (xs ! n)"
  by (simp add: index_def)

lemma for_range_append:
  "for_range (xs @ ys) body s = andThen (for_range xs body s) (for_range ys body)"
  by (induction xs arbitrary: s) (auto split: sum.splits)

lemma for_range_snoc:
  "lo \<le> n \<Longrightarrow> for_range [lo..<Suc n] body s = andThen (for_range [lo..<n] body s) (body n)"
proof -
  assume "lo \<le> n"
  then have "[lo..<Suc n] = [lo..<n] @ [n]" by simp
  moreover have "for_range [n] body = body n"
    by (rule ext) (simp split: sum.splits)
  ultimately show ?thesis by (simp only: for_range_append)
qed

lemma prefix_update:
  assumes "lo \<le> k" "k < length st"
  shows "(take lo st @ map f [lo..<k] @ drop k st)[k := f k]
         = take lo st @ map f [lo..<Suc k] @ drop (Suc k) st"
proof -
  let ?A = "take lo st @ map f [lo..<k]"
  have len: "length ?A = k" using assms by simp
  have "(?A @ drop k st)[k := f k] = ?A @ (drop k st)[0 := f k]"
    using len by (simp add: list_update_append del: append_assoc)
  also have "(drop k st)[0 := f k] = f k # drop (Suc k) st"
    using assms(2) by (simp add: Cons_nth_drop_Suc [symmetric])
  finally show ?thesis using assms(1) by simp
qed

lemma prefix_nth:
  assumes "lo \<le> k" "k \<le> j" "j < length st"
  shows "(take lo st @ map f [lo..<k] @ drop k st) ! j = st ! j"
proof -
  let ?A = "take lo st @ map f [lo..<k]"
  have len: "length ?A = k" using assms by simp
  have "(?A @ drop k st) ! j = drop k st ! (j - k)"
    using len assms(2) by (simp add: nth_append del: append_assoc)
  then show ?thesis using assms by simp
qed

lemma prefix_nth_low:
  assumes "j < lo" "lo \<le> length st"
  shows "(take lo st @ xs) ! j = st ! j"
  using assms by (simp add: nth_append)

lemma prefix_len:
  assumes "lo \<le> k" "k \<le> length st"
  shows "length (take lo st @ map f [lo..<k] @ drop k st) = length st"
  using assms by simp

lemma update_loop:
  assumes "lo \<le> n" "n \<le> length st"
    and "\<And>k cur. lo \<le> k \<Longrightarrow> k < n \<Longrightarrow> cur = take lo st @ map f [lo..<k] @ drop k st
           \<Longrightarrow> body k cur = Inr (cur[k := f k])"
  shows "for_range [lo..<n] body st = Inr (take lo st @ map f [lo..<n] @ drop n st)"
  using assms
proof (induction n)
  case 0
  then show ?case by simp
next
  case (Suc n)
  show ?case
  proof (cases "lo = Suc n")
    case True
    then show ?thesis by simp
  next
    case False
    with Suc.prems have le: "lo \<le> n" and n: "n < length st" by simp_all
    have IH: "for_range [lo..<n] body st = Inr (take lo st @ map f [lo..<n] @ drop n st)"
      using Suc.IH [OF le] n Suc.prems(3) by simp
    have step: "body n (take lo st @ map f [lo..<n] @ drop n st)
        = Inr ((take lo st @ map f [lo..<n] @ drop n st)[n := f n])"
      using Suc.prems(3) [OF le _ refl] by simp
    show ?thesis
      by (simp only: for_range_snoc [OF le] IH andThen_Inr step prefix_update [OF le n])
  qed
qed

lemma update_loop_all:
  assumes "\<And>k cur. k < length st \<Longrightarrow> cur = take 0 st @ map f [0..<k] @ drop k st
           \<Longrightarrow> body k cur = Inr (cur[k := f k])"
  shows "for_range [0..<length st] body st = Inr (map f [0..<length st])"
  using update_loop [of 0 "length st" st f body] assms by simp

lemma sum_loop:
  assumes "off + n \<le> length S"
  shows "for_range [0..<n]
          (\<lambda>j acc. andThen (index S (off + j)) (\<lambda>sj. Inr (ff_Add acc (ff_Mul sj (x ! j))))) 0
         = Inr ((\<Sum>j\<leftarrow>[0..<n]. S ! (off + j) * x ! j) mod modulus)"
  using assms
proof (induction n)
  case 0
  then show ?case by simp
next
  case (Suc n)
  then have IH: "for_range [0..<n]
          (\<lambda>j acc. andThen (index S (off + j)) (\<lambda>sj. Inr (ff_Add acc (ff_Mul sj (x ! j))))) 0
         = Inr ((\<Sum>j\<leftarrow>[0..<n]. S ! (off + j) * x ! j) mod modulus)"
    and lt: "off + n < length S" by simp_all
  show ?case
    by (simp only: for_range_snoc [OF le0] IH andThen_Inr index_in_range [OF lt])
       (simp add: ff_Add_def ff_Mul_def mod_simps)
qed

lemma exp5_sbox: "exp5 a = sbox a"
  by (simp add: exp5_def ff_Exp_def sbox_def)

lemma fold_update_prefix:
  "n \<le> length st \<Longrightarrow>
   fold (\<lambda>i s. s[i := f (s ! i)]) [0..<n] st = map f (take n st) @ drop n st"
proof (induction n)
  case 0
  then show ?case by simp
next
  case (Suc n)
  then have n: "n < length st" by simp
  let ?X = "map f (take n st) @ drop n st"
  have len: "length (map f (take n st)) = n" using n by simp
  have nth: "?X ! n = st ! n"
    using len n by (simp add: nth_append)
  have "?X[n := f (st ! n)] = map f (take n st) @ (drop n st)[0 := f (st ! n)]"
    using len by (simp add: list_update_append)
  also have "\<dots> = map f (take n st) @ f (st ! n) # drop (Suc n) st"
    using n by (simp add: Cons_nth_drop_Suc [symmetric])
  also have "\<dots> = map f (take (Suc n) st) @ drop (Suc n) st"
    using n by (simp add: take_Suc_conv_app_nth)
  finally show ?case using Suc.IH n nth by simp
qed

lemma exp5state_map: "exp5state state = map sbox state"
  using fold_update_prefix [of "length state" state exp5]
  by (simp add: exp5state_def exp5_sbox [abs_def])

lemma ark_eq:
  assumes "it + length state \<le> length c"
  shows "ark state c it = Inr (ark_spec state c it)"
  unfolding ark_def ark_spec_def
proof (rule update_loop_all)
  fix k cur
  assume k: "k < length state"
    and cur: "cur = take 0 state @ map (\<lambda>i. (state ! i + c ! (it + i)) mod modulus) [0..<k] @ drop k state"
  have "cur ! k = state ! k"
    unfolding cur using k by (intro prefix_nth) simp_all
  moreover have "it + k < length c" using assms k by simp
  ultimately show "andThen (index c (it + k)) (\<lambda>ci. Inr (cur[k := ff_Add (cur ! k) ci]))
      = Inr (cur[k := (state ! k + c ! (it + k)) mod modulus])"
    by (simp add: ff_Add_def)
qed

lemma length_ark_spec [simp]: "length (ark_spec state c it) = length state"
  by (simp add: ark_spec_def)

lemma length_mix_spec [simp]: "length (mix_spec m state) = length state"
  by (simp add: mix_spec_def)

lemma matrix_okD:
  assumes "matrix_ok m t" "j < t"
  shows "j < length m" and "t \<le> length (m ! j)"
  using assms by (auto simp: matrix_ok_def list_all_length)

lemma mix_row:
  assumes "i < length scr" "i < t" "matrix_ok m t" "n \<le> t"
  shows "for_range [0..<n]
           (\<lambda>j scr'. andThen (index m j) (\<lambda>mj. andThen (index mj i) (\<lambda>mji.
                 Inr (scr'[i := ff_Add (scr' ! i) (ff_Mul mji (state ! j))]))))
           (scr[i := 0])
         = Inr (scr[i := (\<Sum>j\<leftarrow>[0..<n]. m ! j ! i * state ! j) mod modulus])"
  using assms(4)
proof (induction n)
  case 0
  then show ?case by simp
next
  case (Suc n)
  then have n: "n < t" by simp
  have m: "n < length m" "i < length (m ! n)"
    using matrix_okD [OF assms(3) n] assms(2) by simp_all
  have IH: "for_range [0..<n]
           (\<lambda>j scr'. andThen (index m j) (\<lambda>mj. andThen (index mj i) (\<lambda>mji.
                 Inr (scr'[i := ff_Add (scr' ! i) (ff_Mul mji (state ! j))]))))
           (scr[i := 0])
         = Inr (scr[i := (\<Sum>j\<leftarrow>[0..<n]. m ! j ! i * state ! j) mod modulus])"
    using Suc by simp
  show ?case
    using assms(1)
    by (simp only: for_range_snoc [OF le0] IH andThen_Inr index_in_range [OF m(1)]
          index_in_range [OF m(2)])
       (simp add: ff_Add_def ff_Mul_def mod_simps)
qed

lemma mixWithScratch_eq:
  assumes "matrix_ok m (length state)" "length state \<le> length scratch"
  shows "mixWithScratch state m scratch
         = Inr (mix_spec m state, mix_spec m state @ drop (length state) scratch)"
proof -
  let ?t = "length state"
  let ?f = "\<lambda>i. (\<Sum>j\<leftarrow>[0..<length state]. m ! j ! i * state ! j) mod modulus"
  let ?row = "\<lambda>i scr.
             if i < length scr then
               for_range [0..<length state]
                 (\<lambda>j scr'.
                    andThen (index m j) (\<lambda>mj.
                    andThen (index mj i) (\<lambda>mji.
                    Inr (scr'[i := ff_Add (scr' ! i) (ff_Mul mji (state ! j))]))))
                 (scr[i := 0])
             else Inl IndexOutOfRange"
  have rows: "for_range [0..<?t] ?row scratch
      = Inr (take 0 scratch @ map ?f [0..<?t] @ drop ?t scratch)"
  proof (rule update_loop)
    fix k cur
    assume k: "0 \<le> k" "k < ?t" and cur: "cur = take 0 scratch @ map ?f [0..<k] @ drop k scratch"
    have "length cur = length scratch"
      unfolding cur using k assms(2) by (intro prefix_len) simp_all
    then have "k < length cur" using k assms(2) by simp
    then show "?row k cur = Inr (cur[k := ?f k])"
      using mix_row [OF _ k(2) assms(1) le_refl, of cur state] by simp
  qed (use assms in simp_all)
  let ?scr = "mix_spec m state @ drop ?t scratch"
  have scr: "take 0 scratch @ map ?f [0..<?t] @ drop ?t scratch = ?scr"
    by (simp add: mix_spec_def)
  have copied: "for_range [0..<?t] (\<lambda>i st. andThen (index ?scr i) (\<lambda>v. Inr (st[i := v]))) state
      = Inr (map (\<lambda>i. ?scr ! i) [0..<?t])"
  proof (rule update_loop_all)
    fix k cur
    assume "k < ?t"
    then show "andThen (index ?scr k) (\<lambda>v. Inr (cur[k := v])) = Inr (cur[k := ?scr ! k])"
      by simp
  qed
  have "map (\<lambda>i. ?scr ! i) [0..<?t] = mix_spec m state"
    by (rule nth_equalityI) (simp_all add: nth_append)
  then show ?thesis
    unfolding mixWithScratch_def by (simp only: rows scr andThen_Inr copied)
qed


lemma length_partial_round_spec [simp]:
  "0 < t \<Longrightarrow> length (partial_round_spec C S t i state) = t"
  by (simp add: partial_round_spec_def Let_def)

lemma length_full_round_spec [simp]:
  "length (full_round_spec C m off state) = length state"
  by (simp add: full_round_spec_def)

lemma partialRound_eq:
  assumes t: "length state = t" "0 < t"
    and C: "(NROUNDSF div 2 + 1) * t + i < length C"
    and S: "(2 * t - 1) * Suc i \<le> length S"
  shows "partialRound C S t i state = Inr (partial_round_spec C S t i state)"
proof -
  define pre where "pre = state[0 := (sbox (state ! 0) + C ! ((NROUNDSF div 2 + 1) * t + i)) mod modulus]"
  define new0 where "new0 = (\<Sum>j\<leftarrow>[0..<t]. S ! ((2 * t - 1) * i + j) * pre ! j) mod modulus"
  define f where "f = (\<lambda>k. (pre ! k + pre ! 0 * S ! ((2 * t - 1) * i + t + k - 1)) mod modulus)"
  have len: "length pre = t" by (simp add: pre_def t)
  have pre: "state[0 := ff_Add (exp5 (state ! 0)) (C ! ((NROUNDSF div 2 + 1) * t + i))] = pre"
    by (simp add: pre_def ff_Add_def exp5_sbox)
  have "t \<le> 2 * t - 1" using t(2) by arith
  then have "(2 * t - 1) * i + t \<le> (2 * t - 1) * i + (2 * t - 1)"
    by (rule add_left_mono)
  then have off: "(t * 2 - 1) * i + t \<le> length S"
    using S by (simp add: mult.commute [of t 2])
  have acc: "for_range [0..<length pre]
          (\<lambda>j acc. andThen (index S ((t * 2 - 1) * i + j))
                      (\<lambda>sj. Inr (ff_Add acc (ff_Mul sj (pre ! j))))) zero
        = Inr new0"
    using sum_loop [OF off, of pre] by (simp add: len new0_def zero_def mult.commute)
  have fan: "for_range [1..<t]
          (\<lambda>k st. andThen (index S ((t * 2 - 1) * i + t + k - 1))
                     (\<lambda>sk. Inr (st[k := ff_Add (st ! k) (ff_Mul (st ! 0) sk)]))) pre
        = Inr (take 1 pre @ map f [1..<t] @ drop t pre)"
  proof (rule update_loop)
    fix k cur
    assume k: "1 \<le> k" "k < t" and cur: "cur = take 1 pre @ map f [1..<k] @ drop k pre"
    have ck: "cur ! k = pre ! k"
      unfolding cur using k len by (intro prefix_nth) simp_all
    have c0: "cur ! 0 = pre ! 0"
      unfolding cur using len t(2) by (intro prefix_nth_low) simp_all
    have "t + k \<le> 2 * t - 1" using k by arith
    then have "(2 * t - 1) * i + (t + k) \<le> (2 * t - 1) * i + (2 * t - 1)"
      by (rule add_left_mono)
    then have "(t * 2 - 1) * i + t + k \<le> (2 * t - 1) * Suc i"
      by (simp add: mult.commute [of t 2] add.assoc)
    then have "(t * 2 - 1) * i + t + k - 1 < length S"
      using S k by simp
    then show "andThen (index S ((t * 2 - 1) * i + t + k - 1))
           (\<lambda>sk. Inr (cur[k := ff_Add (cur ! k) (ff_Mul (cur ! 0) sk)]))
         = Inr (cur[k := f k])"
      by (simp add: ck c0 f_def ff_Add_def ff_Mul_def mod_simps mult.commute)
  qed (use t len in simp_all)
  have shape: "(take 1 pre @ map f [1..<t] @ drop t pre)[0 := new0] = new0 # map f [1..<t]"
    using len t(2) by (cases pre) simp_all
  have "partialRound C S t i state = Inr (new0 # map f [1..<t])"
    unfolding partialRound_def
    by (simp only: index_in_range [OF C] andThen_Inr Let_def pre acc fan shape)
  moreover have "partial_round_spec C S t i state = new0 # map f [1..<t]"
    unfolding partial_round_spec_def Let_def pre_def [symmetric] new0_def f_def ..
  ultimately show ?thesis by simp
qed

lemma fullRound_eq:
  assumes "matrix_ok M (length state)" "length state \<le> length scratch"
    and "it + length state \<le> length C"
  shows "fullRound C M it (state, scratch)
         = Inr (full_round_spec C M it state,
                full_round_spec C M it state @ drop (length state) scratch)"
proof -
  let ?a = "ark_spec (map sbox state) C it"
  have "ark (exp5state state) C it = Inr ?a"
    using assms(3) by (simp add: exp5state_map ark_eq)
  moreover have "mixWithScratch ?a M scratch
      = Inr (mix_spec M ?a, mix_spec M ?a @ drop (length ?a) scratch)"
    using assms(1,2) by (intro mixWithScratch_eq) simp_all
  ultimately show ?thesis
    by (simp add: fullRound_def full_round_spec_def)
qed

lemma for_range_pair:
  assumes "\<And>i st scr. i \<in> set js \<Longrightarrow> length st = t \<Longrightarrow> t \<le> length scr \<Longrightarrow>
             \<exists>scr'. body i (st, scr) = Inr (g i st, scr') \<and> t \<le> length scr' \<and> length (g i st) = t"
    and "length st = t" "t \<le> length scr"
  shows "\<exists>scr'. for_range js body (st, scr) = Inr (fold g js st, scr')
            \<and> t \<le> length scr' \<and> length (fold g js st) = t"
  using assms
proof (induction js arbitrary: st scr)
  case Nil
  then show ?case by simp
next
  case (Cons j js)
  from Cons.prems(1) [of j st scr] Cons.prems(2,3)
  obtain scr1 where 1: "body j (st, scr) = Inr (g j st, scr1)" "t \<le> length scr1" "length (g j st) = t"
    by auto
  from Cons.IH [of "g j st" scr1] Cons.prems(1) 1
  obtain scr2 where "for_range js body (g j st, scr1) = Inr (fold g js (g j st), scr2)"
     "t \<le> length scr2" "length (fold g js (g j st)) = t"
    by auto
  with 1 show ?case by simp
qed

lemma for_range_inv:
  assumes "\<And>i s. i \<in> set js \<Longrightarrow> I s \<Longrightarrow> body i s = Inr (g i s) \<and> I (g i s)" and "I s"
  shows "for_range js body s = Inr (fold g js s) \<and> I (fold g js s)"
  using assms by (induction js arbitrary: s) simp_all


lemma index_int_sub2:
  "2 \<le> t \<Longrightarrow> t - 2 < length xs \<Longrightarrow> index_int xs (int t - 2) = Inr (xs ! (t - 2))"
  by (simp add: index_int_def nat_diff_distrib') 

lemma length_NROUNDSP: "length NROUNDSP = 16"
  by (simp add: NROUNDSP_def)

lemma transition_as_fullRound:
  "andThen (ark (exp5state st) C it) (\<lambda>state. andThen (mixWithScratch state P scr) K)
   = andThen (fullRound C P it (st, scr)) K"
  by (simp add: fullRound_def andThen_def split: sum.splits)

lemma hashElements_permute:
  assumes ok: "tables_ok cs (length state)"
    and t2: "2 \<le> length state" and t17: "length state \<le> 17"
    and scr: "length state \<le> length scratch"
  shows "\<exists>scratch'. hashElements cs state scratch = Inr (permute_spec cs state, scratch')
           \<and> length state \<le> length scratch'
           \<and> length (permute_spec cs state) = length state"
proof -
  define t where "t = length state"
  define nP where "nP = NROUNDSP ! (t - 2)"
  define C where "C = c_c cs ! (t - 2)"
  define S where "S = c_s cs ! (t - 2)"
  define M where "M = c_m cs ! (t - 2)"
  define P where "P = c_p cs ! (t - 2)"
  have tpos: "0 < t" "2 \<le> t" "t \<le> 17" using t2 t17 unfolding t_def by linarith+
  have lenC: "8 * t + nP \<le> length C" and lenS: "(2 * t - 1) * nP \<le> length S"
    and okM: "matrix_ok M t" and okP: "matrix_ok P t"
    using ok by (simp_all add: tables_ok_def t_def nP_def C_def S_def M_def P_def)
  have idx: "index_int NROUNDSP (int t - 2) = Inr nP"
    "index_int (c_c cs) (int t - 2) = Inr C" "index_int (c_s cs) (int t - 2) = Inr S"
    "index_int (c_m cs) (int t - 2) = Inr M" "index_int (c_p cs) (int t - 2) = Inr P"
    using ok tpos
    by (simp_all add: index_int_sub2 length_NROUNDSP tables_ok_def t_def nP_def C_def S_def
          M_def P_def)
  have rounds: "NROUNDSF div 2 = 4" "(4::nat) - 1 = 3" "(4::nat) + 1 = 5"
    by (simp_all add: NROUNDSF_def)
  define s1 where "s1 = ark_spec state C 0"
  define s2 where "s2 = fold (\<lambda>i. full_round_spec C M ((i + 1) * t)) [0..<3] s1"
  define s3 where "s3 = full_round_spec C P (4 * t) s2"
  define s4 where "s4 = fold (partial_round_spec C S t) [0..<nP] s3"
  define s5 where "s5 = fold (\<lambda>i. full_round_spec C M (5 * t + nP + i * t)) [0..<3] s4"
  have a1: "ark state C 0 = Inr s1"
    unfolding s1_def using lenC by (intro ark_eq) (simp add: t_def)
  have len1: "length s1 = t" by (simp add: s1_def t_def)
  have "\<exists>scr'. for_range [0..<3] (\<lambda>i. fullRound C M ((i + 1) * t)) (s1, scratch)
            = Inr (fold (\<lambda>i. full_round_spec C M ((i + 1) * t)) [0..<3] s1, scr')
          \<and> t \<le> length scr' \<and> length (fold (\<lambda>i. full_round_spec C M ((i + 1) * t)) [0..<3] s1) = t"
  proof (rule for_range_pair)
    fix i st sc
    assume i: "i \<in> set [0..<3]" and st: "length (st :: int list) = t" "t \<le> length (sc :: int list)"
    have "i * t \<le> 2 * t" using i by (intro mult_le_mono1) simp
    moreover have "(i + 1) * t = i * t + t" by simp
    ultimately have "(i + 1) * t + length st \<le> length C" using lenC st by linarith
    from fullRound_eq [OF _ _ this, of M sc] okM st
    show "\<exists>scr'. fullRound C M ((i + 1) * t) (st, sc)
             = Inr (full_round_spec C M ((i + 1) * t) st, scr')
           \<and> t \<le> length scr' \<and> length (full_round_spec C M ((i + 1) * t) st) = t"
      by simp
  qed (use len1 scr in \<open>simp_all add: t_def\<close>)
  then obtain scr2 where l1: "for_range [0..<3] (\<lambda>i. fullRound C M ((i + 1) * t)) (s1, scratch)
      = Inr (s2, scr2)" and scr2: "t \<le> length scr2" and len2: "length s2 = t"
    unfolding s2_def by blast
  have "5 * t \<le> length C" using lenC by simp
  then have tr: "fullRound C P (4 * t) (s2, scr2) = Inr (s3, s3 @ drop t scr2)"
    unfolding s3_def using fullRound_eq [of P s2 scr2 "4 * t" C] okP scr2 len2 by simp
  have len3: "length s3 = t" by (simp add: s3_def len2)
  have scr3: "t \<le> length (s3 @ drop t scr2)" by (simp add: len3)
  have pr: "for_range [0..<nP] (partialRound C S t) s3 = Inr s4 \<and> length s4 = t"
    unfolding s4_def
  proof (rule for_range_inv)
    fix i st
    assume i: "i \<in> set [0..<nP]" and st: "length (st :: int list) = t"
    have "5 * t + i < length C" using lenC i by simp
    moreover have "(2 * t - 1) * Suc i \<le> (2 * t - 1) * nP"
      using i by (intro mult_le_mono2) simp
    ultimately show "partialRound C S t i st = Inr (partial_round_spec C S t i st)
        \<and> length (partial_round_spec C S t i st) = t"
      using partialRound_eq [OF st tpos(1), of i C S] lenS tpos by (simp add: rounds)
  qed (rule len3)
  have "\<exists>scr'. for_range [0..<3] (\<lambda>i. fullRound C M (5 * t + nP + i * t)) (s4, s3 @ drop t scr2)
            = Inr (fold (\<lambda>i. full_round_spec C M (5 * t + nP + i * t)) [0..<3] s4, scr')
          \<and> t \<le> length scr'
          \<and> length (fold (\<lambda>i. full_round_spec C M (5 * t + nP + i * t)) [0..<3] s4) = t"
  proof (rule for_range_pair)
    fix i st sc
    assume i: "i \<in> set [0..<3]" and st: "length (st :: int list) = t" "t \<le> length (sc :: int list)"
    have "i * t \<le> 2 * t" using i by (intro mult_le_mono1) simp
    then have "5 * t + nP + i * t + length st \<le> length C" using lenC st by linarith
    from fullRound_eq [OF _ _ this, of M sc] okM st
    show "\<exists>scr'. fullRound C M (5 * t + nP + i * t) (st, sc)
             = Inr (full_round_spec C M (5 * t + nP + i * t) st, scr')
           \<and> t \<le> length scr' \<and> length (full_round_spec C M (5 * t + nP + i * t) st) = t"
      by simp
  qed (use pr scr3 in simp_all)
  then obtain scr5 where l2:
    "for_range [0..<3] (\<lambda>i. fullRound C M (5 * t + nP + i * t)) (s4, s3 @ drop t scr2)
      = Inr (s5, scr5)" and scr5: "t \<le> length scr5" and len5: "length s5 = t"
    unfolding s5_def by blast
  have fin: "mixWithScratch (exp5state s5) M scr5
      = Inr (mix_spec M (map sbox s5), mix_spec M (map sbox s5) @ drop t scr5)"
    using mixWithScratch_eq [of M "map sbox s5" scr5] okM scr5 len5
    by (simp add: exp5state_map)
  have "hashElements cs state scratch
      = Inr (mix_spec M (map sbox s5), mix_spec M (map sbox s5) @ drop t scr5)"
    unfolding hashElements_def Let_def t_def [symmetric]
    by (simp only: idx andThen_Inr a1 rounds l1 prod.case transition_as_fullRound tr pr l2 fin)
  moreover have "permute_spec cs state = mix_spec M (map sbox s5)"
    unfolding permute_spec_def Let_def t_def [symmetric] nP_def [symmetric] C_def [symmetric]
      S_def [symmetric] M_def [symmetric] P_def [symmetric] rounds
      s1_def [symmetric] s2_def [symmetric] s3_def [symmetric] s4_def [symmetric]
      s5_def [symmetric] ..
  ultimately show ?thesis
    using len5 by (simp add: t_def)
qed

lemma small_constants_nth:
  assumes "2 \<le> t" "t \<le> 17"
  shows "c_c small_constants ! (t - 2) = map (\<lambda>i. int (i + t)) [0..<8 * t + NROUNDSP ! (t - 2)]"
    and "c_s small_constants ! (t - 2) = map (\<lambda>i. int (2 * i + 1)) [0..<(2 * t - 1) * NROUNDSP ! (t - 2)]"
    and "c_m small_constants ! (t - 2) = map (\<lambda>j. map (\<lambda>i. int (i + j * t + 1)) [0..<t]) [0..<t]"
    and "c_p small_constants ! (t - 2) = map (\<lambda>j. map (\<lambda>i. int (2 * i + j + 1)) [0..<t]) [0..<t]"
proof -
  have "2 + (t - 2) < 18" using assms by simp
  then have "[2..<18] ! (t - 2) = 2 + (t - 2)" by (rule nth_upt)
  then have nth: "[2..<18] ! (t - 2) = t" using assms by simp
  have len: "t - 2 < length [2..<18]" using assms by simp
  show "c_c small_constants ! (t - 2) = map (\<lambda>i. int (i + t)) [0..<8 * t + NROUNDSP ! (t - 2)]"
    and "c_s small_constants ! (t - 2) = map (\<lambda>i. int (2 * i + 1)) [0..<(2 * t - 1) * NROUNDSP ! (t - 2)]"
    and "c_m small_constants ! (t - 2) = map (\<lambda>j. map (\<lambda>i. int (i + j * t + 1)) [0..<t]) [0..<t]"
    and "c_p small_constants ! (t - 2) = map (\<lambda>j. map (\<lambda>i. int (2 * i + j + 1)) [0..<t]) [0..<t]"
    unfolding small_constants_def by (simp_all only: select_convs nth_map [OF len] nth)
qed

lemma small_tables_ok:
  assumes "2 \<le> t" "t \<le> 17"
  shows "tables_ok small_constants t"
proof -
  have "t - 2 < 16" using assms by simp
  then have "t - 2 < length (c_c small_constants)" "t - 2 < length (c_s small_constants)"
     "t - 2 < length (c_m small_constants)" "t - 2 < length (c_p small_constants)"
    by (simp_all add: small_constants_def del: upt_rec_numeral upt_Suc)
  then show ?thesis
    unfolding tables_ok_def matrix_ok_def small_constants_nth [OF assms]
    by (simp add: list_all_length del: upt_rec_numeral upt_Suc)
qed

lemma small_constants_ok: "constants_ok small_constants"
  unfolding constants_ok_def list_all_iff by (auto intro: small_tables_ok)

lemma constants_okD: "constants_ok cs \<Longrightarrow> 2 \<le> t \<Longrightarrow> t \<le> 17 \<Longrightarrow> tables_ok cs t"
  by (simp add: constants_ok_def list_all_iff del: upt_rec_numeral)

lemma output_loop:
  assumes "n \<le> length state"
  shows "for_range [0..<n]
           (\<lambda>i r. andThen (index state i) (\<lambda>rE. Inr (r[i := ff_ToBigIntRegular rE])))
           (replicate n 0)
         = Inr (map ff_ToBigIntRegular (take n state))"
proof -
  have "for_range [0..<length (replicate n (0::int))]
           (\<lambda>i r. andThen (index state i) (\<lambda>rE. Inr (r[i := ff_ToBigIntRegular rE])))
           (replicate n 0)
         = Inr (map (\<lambda>i. ff_ToBigIntRegular (state ! i)) [0..<length (replicate n (0::int))])"
  proof (rule update_loop_all)
    fix k and cur :: "int list"
    assume "k < length (replicate n (0::int))"
    then have "k < length state" using assms by simp
    then show "andThen (index state k) (\<lambda>rE. Inr (cur[k := ff_ToBigIntRegular rE]))
        = Inr (cur[k := ff_ToBigIntRegular (state ! k)])"
      by simp
  qed
  moreover have "map (\<lambda>i. ff_ToBigIntRegular (state ! i)) [0..<n]
      = map ff_ToBigIntRegular (take n state)"
    using assms by (intro nth_equalityI) simp_all
  ultimately show ?thesis by simp
qed

lemma HashWithStateEx_valid:
  assumes ok: "constants_ok cs"
    and len: "0 < length inputs" "length inputs \<le> 16"
    and fld: "\<forall>x\<in>set inputs. x < modulus" "initState < modulus"
    and outs: "1 \<le> nOuts" "nOuts \<le> int (length inputs) + 1"
  shows "HashWithStateEx cs inputs initState nOuts
         = Inr (map ff_ToBigIntRegular
                  (take (nat nOuts)
                     (permute_spec cs (ff_SetBigInt initState # map ff_SetBigInt inputs))))"
proof -
  let ?state = "ff_SetBigInt initState # map ff_SetBigInt inputs"
  have t: "2 \<le> length ?state" "length ?state \<le> 17" using len by (simp_all add: Suc_le_eq)
  from hashElements_permute [OF constants_okD [OF ok t] t, of "replicate (length ?state) zero"]
  obtain scratch' where h: "hashElements cs ?state (replicate (length ?state) zero)
        = Inr (permute_spec cs ?state, scratch')"
    and l: "length (permute_spec cs ?state) = length ?state"
    by auto
  have n: "nat nOuts \<le> length (permute_spec cs ?state)"
    using outs l by simp
  have chk: "CheckBigIntArrayInField inputs" "CheckBigIntInField initState"
    using fld by (simp_all add: CheckBigIntArrayInField_def CheckBigIntInField_def list_all_iff)
  have st: "ff_SetBigInt initState # take (length inputs + 1 - 1) (BigIntArrayToElementArray inputs)
      = ?state"
    by (simp add: BigIntArrayToElementArray_def)
  show ?thesis
    unfolding HashWithStateEx_def Let_def st
    using len outs chk h by (simp add: length_NROUNDSP output_loop [OF n])
qed

lemma for_range_cong:
  "(\<And>i s. i \<in> set js \<Longrightarrow> b1 i s = b2 i s) \<Longrightarrow> for_range js b1 s = for_range js b2 s"
  by (induction js arbitrary: s) (simp_all split: sum.splits)

lemma length_newFrame [simp]: "length (newFrame frameSize) = nat frameSize"
  by (simp add: newFrame_def)

lemma sponge_prefix:
  assumes "n \<le> length x" "int n \<le> frameSize - 1"
  shows "for_range [0..<n] (\<lambda>i. spongeStep cs frameSize (x ! i)) (newFrame frameSize, 0, False, None)
         = Inr (take n x @ replicate (nat frameSize - n) 0, n, 0 < n, None)"
  using assms
proof (induction n)
  case 0
  then show ?case by (simp add: newFrame_def)
next
  case (Suc n)
  then have IH: "for_range [0..<n] (\<lambda>i. spongeStep cs frameSize (x ! i))
        (newFrame frameSize, 0, False, None)
      = Inr (take n x @ replicate (nat frameSize - n) 0, n, 0 < n, None)"
    and n: "n < length x" "int n < frameSize - 1"
    by simp_all
  have lt: "n < nat frameSize" using n(2) by simp
  have upd: "(take n x @ replicate (nat frameSize - n) 0)[n := x ! n]
      = take (Suc n) x @ replicate (nat frameSize - Suc n) 0"
  proof -
    have "nat frameSize - n = Suc (nat frameSize - Suc n)" using lt by simp
    then show ?thesis
      using n(1) by (simp add: list_update_append take_Suc_conv_app_nth)
  qed
  have "spongeStep cs frameSize (x ! n) (take n x @ replicate (nat frameSize - n) 0, n, 0 < n, None)
      = Inr (take (Suc n) x @ replicate (nat frameSize - Suc n) 0, Suc n, True, None)"
    using n lt by (simp add: spongeStep_def upd)
  then show ?case
    by (simp only: for_range_snoc [OF le0] IH andThen_Inr) simp
qed

lemma ff_Bytes_zero: "ff_Bytes 0 = replicate 32 0"
  by (simp add: ff_Bytes_def map_replicate_const del: upt_rec_numeral)

lemma SetBytes_zeros:
  "foldl (\<lambda>acc b. acc * 256 + uint (b :: 8 word)) a (replicate n 0) = a * 256 ^ n"
  by (induction n arbitrary: a) simp_all

lemma lastChunk_short:
  "length msg < 31 \<Longrightarrow> lastChunk msg = msg @ replicate (31 - length msg) 0"
  by (simp add: lastChunk_def spongeChunkSize_def)

lemma SetBytes_a: "SetBytes (lastChunk [97]) = 97 * 2 ^ 240"
proof -
  have "lastChunk [97] = [97] @ replicate 30 0"
    by (simp add: lastChunk_short)
  then have "SetBytes (lastChunk [97]) = 97 * 256 ^ 30"
    by (simp add: SetBytes_def SetBytes_zeros)
  also have "(256 :: int) ^ 30 = 2 ^ 240"
    by simp
  finally show ?thesis .
qed

lemma newFrame_2: "newFrame 2 = [0, 0]"
  by (simp add: newFrame_def numeral_2_eq_2)

lemma unchanged_refl [simp]: "unchanged h h"
  by (simp add: unchanged_def)

lemma unchanged_trans: "unchanged h h1 \<Longrightarrow> unchanged h1 h2 \<Longrightarrow> unchanged h h2"
proof -
  assume a: "unchanged h h1" and b: "unchanged h1 h2"
  then have l: "length h \<le> length h1" "length h1 \<le> length h2"
    by (simp_all add: unchanged_def)
  have "take (length h) h2 = take (length h) (take (length h1) h2)"
    using l by (simp add: min_def)
  also have "\<dots> = take (length h) h1" using b by (simp add: unchanged_def)
  also have "\<dots> = h" using a by (simp add: unchanged_def)
  finally show ?thesis using l by (simp add: unchanged_def)
qed

lemma unchanged_length: "unchanged h h' \<Longrightarrow> length h \<le> length h'"
  by (simp add: unchanged_def)

lemma unchanged_nth: "unchanged h h' \<Longrightarrow> a < length h \<Longrightarrow> h' ! a = h ! a"
proof -
  assume u: "unchanged h h'" and a: "a < length h"
  have "take (length h) h' ! a = h' ! a" using a by simp
  then show ?thesis using u by (simp add: unchanged_def)
qed

lemma unchanged_load:
  assumes "unchanged h h'" "load h p = Inr v"
  shows "load h' p = Inr v"
proof (cases p)
  case None
  with assms(2) show ?thesis by (simp add: load_def)
next
  case (Some a)
  with assms(2) have a: "a < length h" and v: "v = h ! a"
    by (auto simp: load_def split: if_splits)
  moreover have "a < length h'" using a unchanged_length [OF assms(1)] by simp
  ultimately show ?thesis
    using Some unchanged_nth [OF assms(1) a] by (simp add: load_def)
qed

lemma unchanged_append [simp]: "unchanged h (h @ xs)"
  by (simp add: unchanged_def)

lemma unchanged_update:
  "unchanged h h' \<Longrightarrow> length h \<le> a \<Longrightarrow> unchanged h (h'[a := v])"
  by (simp add: unchanged_def)

lemma fresh_mono:
  "fresh h h1 p \<Longrightarrow> length h1 \<le> length h2 \<Longrightarrow> fresh h h2 p"
  by (auto simp: fresh_def split: option.splits)

lemma fresh_weaken:
  "fresh h1 h2 p \<Longrightarrow> length h \<le> length h1 \<Longrightarrow> fresh h h2 p"
  by (auto simp: fresh_def split: option.splits)

lemma newOutputs_frame:
  assumes "newOutputs state js (h, r) = (h', res)" "unchanged h0 h"
  shows "unchanged h0 h' \<and>
         (\<forall>r'. res = Inr r' \<longrightarrow> length r' = length r \<and>
            (\<forall>j<length r. j \<in> set js \<or> fresh h0 h (r ! j) \<longrightarrow> fresh h0 h' (r' ! j)))"
  using assms
proof (induction js arbitrary: h r)
  case Nil
  then have "h' = h" "res = Inr r" by simp_all
  with Nil.prems(2) show ?case by simp
next
  case (Cons i js)
  show ?case
  proof (cases "index state i")
    case (Inl e)
    with Cons.prems(1) have "h' = h" "res = Inl e" by simp_all
    with Cons.prems(2) show ?thesis by simp
  next
    case (Inr rE)
    let ?h2 = "(h @ [0])[length h := ff_ToBigIntRegular rE]"
    let ?r2 = "r[i := Some (length h)]"
    from Cons.prems(1) Inr have run: "newOutputs state js (?h2, ?r2) = (h', res)"
      by (simp add: NewInt_def)
    have len0: "length h0 \<le> length h" using Cons.prems(2) by (rule unchanged_length)
    have "unchanged h0 (h @ [0])"
      using Cons.prems(2) by (rule unchanged_trans) simp
    then have u2: "unchanged h0 ?h2"
      using len0 by (rule unchanged_update)
    note IH = Cons.IH [OF run u2]
    have u: "unchanged h0 h'" using IH by (rule conjunct1)
    have "length r' = length r \<and>
          (\<forall>j<length r. j \<in> set (i # js) \<or> fresh h0 h (r ! j) \<longrightarrow> fresh h0 h' (r' ! j))"
      if r': "res = Inr r'" for r'
    proof -
      from IH r' have l: "length r' = length ?r2"
        and f: "\<forall>j<length ?r2. j \<in> set js \<or> fresh h0 ?h2 (?r2 ! j) \<longrightarrow> fresh h0 h' (r' ! j)"
        by blast+
      have "fresh h0 h' (r' ! j)"
        if j: "j < length r" "j \<in> set (i # js) \<or> fresh h0 h (r ! j)" for j
      proof -
        have "j \<in> set js \<or> fresh h0 ?h2 (?r2 ! j)"
        proof (cases "j = i")
          case True
          then show ?thesis using j(1) len0 by (simp add: fresh_def)
        next
          case False
          then have "j \<in> set js \<or> fresh h0 h (r ! j)" using j(2) by simp
          then show ?thesis
          proof
            assume "j \<in> set js" then show ?thesis ..
          next
            assume "fresh h0 h (r ! j)"
            then have "fresh h0 ?h2 (r ! j)" by (rule fresh_mono) simp
            then show ?thesis using False by simp
          qed
        qed
        moreover have "j < length ?r2" using j(1) by simp
        ultimately show ?thesis using f by blast
      qed
      with l show ?thesis by simp
    qed
    with u show ?thesis by blast
  qed
qed

lemma newZeros_frame:
  "newZeros js (h, frame) = (h', frame') \<Longrightarrow> unchanged h0 h \<Longrightarrow> unchanged h0 h'"
proof (induction js arbitrary: h frame)
  case Nil
  then show ?case by simp
next
  case (Cons j js)
  from Cons.prems(1) have "newZeros js (h @ [0], frame[j := Some (length h)]) = (h', frame')"
    by (simp add: NewInt_def)
  moreover have "unchanged h0 (h @ [0])"
    using Cons.prems(2) by (rule unchanged_trans) simp
  ultimately show ?case by (rule Cons.IH)
qed


lemma HashWithStateEx_st_cases:
  assumes "HashWithStateEx_st cs h inpBI initState nOuts = (h', res)"
  shows "(h' = h \<and> (\<exists>e. res = Inl e)) \<or>
         (1 \<le> nOuts \<and> (\<exists>state.
            newOutputs state [0..<nat nOuts] (h, replicate (nat nOuts) None) = (h', res)))"
  using assms unfolding HashWithStateEx_st_def Let_def
  by (simp split: if_splits sum.splits prod.splits) blast+

lemma HashWithStateEx_st_frame:
  assumes "HashWithStateEx_st cs h inpBI initState nOuts = (h', res)"
  shows "unchanged h h' \<and>
         (\<forall>r. res = Inr r \<longrightarrow> int (length r) = nOuts \<and> (\<forall>p\<in>set r. fresh h h' p))"
  using HashWithStateEx_st_cases [OF assms]
proof
  assume "h' = h \<and> (\<exists>e. res = Inl e)"
  then show ?thesis by auto
next
  assume "1 \<le> nOuts \<and> (\<exists>state.
            newOutputs state [0..<nat nOuts] (h, replicate (nat nOuts) None) = (h', res))"
  then obtain state where n: "1 \<le> nOuts"
    and run: "newOutputs state [0..<nat nOuts] (h, replicate (nat nOuts) None) = (h', res)"
    by blast
  from newOutputs_frame [OF run unchanged_refl]
  have u: "unchanged h h'"
    and r: "\<And>r. res = Inr r \<Longrightarrow> length r = nat nOuts \<and> (\<forall>j<nat nOuts. fresh h h' (r ! j))"
    by auto
  have "int (length r) = nOuts \<and> (\<forall>p\<in>set r. fresh h h' p)" if "res = Inr r" for r
    using r [OF that] n by (auto simp: in_set_conv_nth)
  with u show ?thesis by blast
qed

lemma HashWithState_st_frame:
  assumes "HashWithState_st cs h inpBI initState = (h', res)"
  shows "unchanged h h' \<and> (\<forall>p. res = Inr p \<longrightarrow> fresh h h' p)"
proof -
  obtain h1 res1 where ex: "HashWithStateEx_st cs h inpBI initState 1 = (h1, res1)"
    by (cases "HashWithStateEx_st cs h inpBI initState 1")
  note fr = HashWithStateEx_st_frame [OF ex]
  show ?thesis
  proof (cases res1)
    case (Inl e)
    with assms ex have "h' = h1" "res = Inl e" by (simp_all add: HashWithState_st_def)
    with fr show ?thesis by simp
  next
    case (Inr r)
    with assms ex have h': "h' = h1" and res: "res = index r 0"
      by (simp_all add: HashWithState_st_def)
    from fr Inr have "length r = 1" and f: "\<forall>p\<in>set r. fresh h h1 p" by auto
    then have "index r 0 = Inr (r ! 0)" "r ! 0 \<in> set r" by (simp_all add: index_def)
    with f fr h' res show ?thesis by auto
  qed
qed

lemma Hash_st_frame:
  assumes "Hash_st cs h inpBI = (h', res)"
  shows "unchanged h h' \<and> (\<forall>p. res = Inr p \<longrightarrow> fresh h h' p)"
proof -
  from assms have "HashWithState_st cs (h @ [0]) inpBI (Some (length h)) = (h', res)"
    by (simp add: Hash_st_def NewInt_def)
  from HashWithState_st_frame [OF this]
  have u: "unchanged (h @ [0]) h'" and f: "\<forall>p. res = Inr p \<longrightarrow> fresh (h @ [0]) h' p"
    by auto
  have "unchanged h h'" using unchanged_append u by (rule unchanged_trans)
  moreover have "fresh h h' p" if "res = Inr p" for p
    using f that by (auto intro: fresh_weaken)
  ultimately show ?thesis by blast
qed

lemma spongeStep_st_frame:
  assumes "spongeStep_st cs frameSize v (h, frame, k, dirty, hash) = (h', res)"
    and "unchanged h0 h"
  shows "unchanged h0 h' \<and>
         (\<forall>frame' k' dirty' hash'. res = Inr (frame', k', dirty', hash')
             \<longrightarrow> dirty' \<or> fresh h0 h' hash')"
proof (cases "k < length frame \<and> int k = frameSize - 1")
  case False
  with assms(1) have "h' = h \<and> (\<forall>frame' k' dirty' hash'. res = Inr (frame', k', dirty', hash')
             \<longrightarrow> dirty')"
    by (auto simp: spongeStep_st_def Let_def split: if_splits)
  with assms(2) show ?thesis by blast
next
  case True
  obtain h1 res1 where hs: "Hash_st cs h (frame[k := v]) = (h1, res1)"
    by (cases "Hash_st cs h (frame[k := v])")
  from Hash_st_frame [OF hs]
  have u1: "unchanged h h1" and f1: "\<forall>p. res1 = Inr p \<longrightarrow> fresh h h1 p" by auto
  have u01: "unchanged h0 h1" using assms(2) u1 by (rule unchanged_trans)
  show ?thesis
  proof (cases res1)
    case (Inl e)
    with assms(1) True hs have "h' = h1" "res = Inl e"
      by (simp_all add: spongeStep_st_def Let_def)
    with u01 show ?thesis by simp
  next
    case (Inr p)
    obtain h2 fr2 where nz: "newZeros [1..<nat frameSize]
        (h1, (replicate (nat frameSize) None)[0 := p]) = (h2, fr2)"
      by (cases "newZeros [1..<nat frameSize] (h1, (replicate (nat frameSize) None)[0 := p])")
    from assms(1) True hs Inr nz have r: "h' = h2" "res = Inr (fr2, 1, False, p)"
      by (simp_all add: spongeStep_st_def Let_def)
    have u02: "unchanged h0 h2" using nz u01 by (rule newZeros_frame)
    have u12: "unchanged h1 h2" using nz unchanged_refl by (rule newZeros_frame)
    have "fresh h h1 p" using f1 Inr by simp
    then have "fresh h0 h2 p"
      using unchanged_length [OF assms(2)] unchanged_length [OF u12]
      by (auto intro: fresh_mono fresh_weaken)
    with r u02 show ?thesis by simp
  qed
qed

lemma spongeLoop_st_frame:
  assumes "spongeLoop_st cs frameSize inputs (h, frame, k, dirty, hash) = (h', res)"
    and "unchanged h0 h"
  shows "unchanged h0 h' \<and>
         (\<forall>frame' k' dirty' hash'. res = Inr (frame', k', dirty', hash')
             \<longrightarrow> inputs \<noteq> [] \<or> dirty \<or> fresh h0 h hash \<longrightarrow> dirty' \<or> fresh h0 h' hash')"
  using assms
proof (induction inputs arbitrary: h frame k dirty hash)
  case Nil
  then show ?case by auto
next
  case (Cons v inputs)
  obtain h1 res1 where st: "spongeStep_st cs frameSize v (h, frame, k, dirty, hash) = (h1, res1)"
    by (cases "spongeStep_st cs frameSize v (h, frame, k, dirty, hash)")
  note fr = spongeStep_st_frame [OF st Cons.prems(2)]
  show ?case
  proof (cases res1)
    case (Inl e)
    with Cons.prems(1) st have "h' = h1" "res = Inl e" by simp_all
    with fr show ?thesis by simp
  next
    case (Inr s1)
    obtain frame1 k1 dirty1 hash1 where s1: "s1 = (frame1, k1, dirty1, hash1)"
      by (cases s1)
    from Cons.prems(1) st Inr s1
    have run: "spongeLoop_st cs frameSize inputs (h1, frame1, k1, dirty1, hash1) = (h', res)"
      by simp
    from fr Inr s1 have u1: "unchanged h0 h1" and d1: "dirty1 \<or> fresh h0 h1 hash1"
      by auto
    from Cons.IH [OF run u1] d1 show ?thesis by blast
  qed
qed

lemma SpongeHashX_st_frame:
  assumes "SpongeHashX_st cs h inputs frameSize = (h', res)"
  shows "unchanged h h' \<and> (\<forall>p. res = Inr p \<longrightarrow> inputs \<noteq> [] \<longrightarrow> fresh h h' p)"
proof (cases "frameSize < 2 \<or> frameSize > 16")
  case True
  with assms show ?thesis by (auto simp: SpongeHashX_st_def)
next
  case False
  obtain h0 frame where nz: "newZeros [0..<nat frameSize] (h, replicate (nat frameSize) None)
      = (h0, frame)"
    by (cases "newZeros [0..<nat frameSize] (h, replicate (nat frameSize) None)")
  have u0: "unchanged h h0" using nz unchanged_refl by (rule newZeros_frame)
  obtain h1 res1 where lp: "spongeLoop_st cs frameSize inputs (h0, frame, 0, False, None)
      = (h1, res1)"
    by (cases "spongeLoop_st cs frameSize inputs (h0, frame, 0, False, None)")
  note fr = spongeLoop_st_frame [OF lp u0]
  show ?thesis
  proof (cases res1)
    case (Inl e)
    with assms False nz lp have "h' = h1" "res = Inl e"
      by (simp_all add: SpongeHashX_st_def)
    with fr show ?thesis by simp
  next
    case (Inr s1)
    obtain frame1 k1 dirty1 hash1 where s1: "s1 = (frame1, k1, dirty1, hash1)"
      by (cases s1)
    from fr Inr s1 have u1: "unchanged h h1"
      and d1: "inputs \<noteq> [] \<Longrightarrow> dirty1 \<or> fresh h h1 hash1"
      by auto
    show ?thesis
    proof (cases dirty1)
      case True
      with assms False nz lp Inr s1 have hs: "Hash_st cs h1 frame1 = (h', res)"
        by (simp add: SpongeHashX_st_def)
      from Hash_st_frame [OF hs]
      have u: "unchanged h1 h'" and f: "\<forall>p. res = Inr p \<longrightarrow> fresh h1 h' p" by auto
      have "unchanged h h'" using u1 u by (rule unchanged_trans)
      moreover have "fresh h h' p" if "res = Inr p" for p
        using f that unchanged_length [OF u1] by (auto intro: fresh_weaken)
      ultimately show ?thesis by blast
    next
      case dirty: False
      with assms False nz lp Inr s1 have "h' = h1" "res = Inr hash1"
        by (simp_all add: SpongeHashX_st_def)
      with u1 d1 dirty show ?thesis by auto
    qed
  qed
qed

lemma load_valid: "a < length h \<Longrightarrow> load h (Some a) = Inr (h ! a)"
  by (simp add: load_def)

lemma CheckBigIntArrayInField_st_value:
  assumes "\<forall>p\<in>set arr. \<exists>a. p = Some a \<and> a < length h"
  shows "CheckBigIntArrayInField_st h arr
         = Inr (CheckBigIntArrayInField (map (\<lambda>p. h ! the p) arr))"
  using assms
  by (induction arr) (auto simp: CheckBigIntArrayInField_def load_valid)

lemma BigIntArrayToElementArray_st_value:
  assumes "\<forall>p\<in>set bi. \<exists>a. p = Some a \<and> a < length h"
  shows "BigIntArrayToElementArray_st h bi
         = Inr (BigIntArrayToElementArray (map (\<lambda>p. h ! the p) bi))"
  using assms
  by (induction bi) (auto simp: BigIntArrayToElementArray_def load_valid)

lemma newOutputs_value:
  assumes "newOutputs state js (h, r) = (h', res)"
    and "length r = length rv"
    and "\<forall>j<length r. j \<in> set js \<or> (\<exists>a. r ! j = Some a \<and> a < length h \<and> h ! a = rv ! j)"
  shows "case for_range js
                (\<lambda>i r. andThen (index state i) (\<lambda>rE. Inr (r[i := ff_ToBigIntRegular rE]))) rv of
           Inl e \<Rightarrow> res = Inl e
         | Inr rv' \<Rightarrow> \<exists>r'. res = Inr r' \<and> length r' = length rv' \<and>
              (\<forall>j<length r'. \<exists>a. r' ! j = Some a \<and> a < length h' \<and> h' ! a = rv' ! j)"
  using assms
proof (induction js arbitrary: h r rv)
  case Nil
  then have "h' = h" "res = Inr r" by simp_all
  with Nil.prems(2,3) show ?case by simp
next
  case (Cons i js)
  show ?case
  proof (cases "index state i")
    case (Inl e)
    with Cons.prems(1) show ?thesis by simp
  next
    case (Inr rE)
    let ?V = "ff_ToBigIntRegular rE"
    let ?h2 = "(h @ [0])[length h := ?V]"
    let ?r2 = "r[i := Some (length h)]"
    let ?rv2 = "rv[i := ?V]"
    from Cons.prems(1) Inr have run: "newOutputs state js (?h2, ?r2) = (h', res)"
      by (simp add: NewInt_def)
    have len: "length ?r2 = length ?rv2" using Cons.prems(2) by simp
    have inv: "\<forall>j<length ?r2. j \<in> set js \<or>
        (\<exists>a. ?r2 ! j = Some a \<and> a < length ?h2 \<and> ?h2 ! a = ?rv2 ! j)"
    proof (intro allI impI)
      fix j assume j: "j < length ?r2"
      show "j \<in> set js \<or> (\<exists>a. ?r2 ! j = Some a \<and> a < length ?h2 \<and> ?h2 ! a = ?rv2 ! j)"
      proof (cases "j = i")
        case True
        then show ?thesis using j Cons.prems(2) by simp
      next
        case False
        with Cons.prems(3) j
        have "j \<in> set js \<or> (\<exists>a. r ! j = Some a \<and> a < length h \<and> h ! a = rv ! j)"
          by auto
        then show ?thesis
        proof
          assume "j \<in> set js" then show ?thesis ..
        next
          assume "\<exists>a. r ! j = Some a \<and> a < length h \<and> h ! a = rv ! j"
          then obtain a where "r ! j = Some a" "a < length h" "h ! a = rv ! j" by blast
          then have "?r2 ! j = Some a \<and> a < length ?h2 \<and> ?h2 ! a = ?rv2 ! j"
            using False by (simp add: nth_append)
          then show ?thesis by blast
        qed
      qed
    qed
    from Cons.IH [OF run len inv] Inr show ?thesis by simp
  qed
qed

lemma HashWithStateEx_st_value:
  assumes ptrs: "\<forall>p\<in>set inpBI. \<exists>a. p = Some a \<and> a < length h" and b: "b < length h"
  shows "case HashWithStateEx_st cs h inpBI (Some b) nOuts of
           (h', res) \<Rightarrow> map_sum id (map (\<lambda>p. h' ! the p)) res
                        = HashWithStateEx cs (map (\<lambda>p. h ! the p) inpBI) (h ! b) nOuts"
proof -
  let ?vals = "map (\<lambda>p. h ! the p) inpBI"
  let ?body = "\<lambda>state i r. andThen (index state i) (\<lambda>rE. Inr (r[i := ff_ToBigIntRegular rE]))"
  have out: "case newOutputs state [0..<nat nOuts] (h, replicate (nat nOuts) None) of
          (h', res) \<Rightarrow> map_sum id (map (\<lambda>p. h' ! the p)) res
             = for_range [0..<nat nOuts] (?body state) (replicate (nat nOuts) 0)" for state
  proof -
    obtain h' res where run:
      "newOutputs state [0..<nat nOuts] (h, replicate (nat nOuts) None) = (h', res)"
      by (cases "newOutputs state [0..<nat nOuts] (h, replicate (nat nOuts) None)")
    have "case for_range [0..<nat nOuts] (?body state) (replicate (nat nOuts) 0) of
           Inl e \<Rightarrow> res = Inl e
         | Inr rv' \<Rightarrow> \<exists>r'. res = Inr r' \<and> length r' = length rv' \<and>
              (\<forall>j<length r'. \<exists>a. r' ! j = Some a \<and> a < length h' \<and> h' ! a = rv' ! j)"
      by (rule newOutputs_value [OF run]) simp_all
    then have "map_sum id (map (\<lambda>p. h' ! the p)) res
        = for_range [0..<nat nOuts] (?body state) (replicate (nat nOuts) 0)"
    proof (cases "for_range [0..<nat nOuts] (?body state) (replicate (nat nOuts) 0)")
      case (Inl e)
      with \<open>case for_range [0..<nat nOuts] (?body state) (replicate (nat nOuts) 0) of
           Inl e \<Rightarrow> res = Inl e
         | Inr rv' \<Rightarrow> \<exists>r'. res = Inr r' \<and> length r' = length rv' \<and>
              (\<forall>j<length r'. \<exists>a. r' ! j = Some a \<and> a < length h' \<and> h' ! a = rv' ! j)\<close>
      show ?thesis by simp
    next
      case (Inr rv')
      with \<open>case for_range [0..<nat nOuts] (?body state) (replicate (nat nOuts) 0) of
           Inl e \<Rightarrow> res = Inl e
         | Inr rv' \<Rightarrow> \<exists>r'. res = Inr r' \<and> length r' = length rv' \<and>
              (\<forall>j<length r'. \<exists>a. r' ! j = Some a \<and> a < length h' \<and> h' ! a = rv' ! j)\<close>
      obtain r' where r': "res = Inr r'" "length r' = length rv'"
        "\<forall>j<length r'. \<exists>a. r' ! j = Some a \<and> a < length h' \<and> h' ! a = rv' ! j"
        by auto
      have "map (\<lambda>p. h' ! the p) r' = rv'"
      proof (rule nth_equalityI)
        show "length (map (\<lambda>p. h' ! the p) r') = length rv'" using r'(2) by simp
      next
        fix j assume "j < length (map (\<lambda>p. h' ! the p) r')"
        then have j: "j < length r'" by simp
        with r'(3) obtain a where "r' ! j = Some a" "h' ! a = rv' ! j" by blast
        with j show "map (\<lambda>p. h' ! the p) r' ! j = rv' ! j" by simp
      qed
      with Inr r'(1) show ?thesis by simp
    qed
    with run show ?thesis by simp
  qed
  show ?thesis
    unfolding HashWithStateEx_st_def HashWithStateEx_def Let_def
      CheckBigIntArrayInField_st_value [OF ptrs] BigIntArrayToElementArray_st_value [OF ptrs]
      load_valid [OF b]
    using out
    by (simp add: andThen_def split: sum.splits prod.splits)
qed


lemma Hash_st_value:
  assumes ptrs: "\<forall>p\<in>set inpBI. \<exists>a. p = Some a \<and> a < length h"
  shows "case Hash_st cs h inpBI of
           (h', res) \<Rightarrow> map_sum id (\<lambda>p. h' ! the p) res = Hash cs (map (\<lambda>p. h ! the p) inpBI)"
proof -
  let ?h1 = "h @ [0]"
  have ptrs1: "\<forall>p\<in>set inpBI. \<exists>a. p = Some a \<and> a < length ?h1"
    using ptrs by auto
  have vals: "map (\<lambda>p. ?h1 ! the p) inpBI = map (\<lambda>p. h ! the p) inpBI"
    using ptrs by (auto simp: nth_append)
  obtain h' res where ex: "HashWithStateEx_st cs ?h1 inpBI (Some (length h)) 1 = (h', res)"
    by (cases "HashWithStateEx_st cs ?h1 inpBI (Some (length h)) 1")
  from HashWithStateEx_st_value [OF ptrs1, of "length h" cs 1] ex
  have v: "map_sum id (map (\<lambda>p. h' ! the p)) res
      = HashWithStateEx cs (map (\<lambda>p. h ! the p) inpBI) 0 1"
    by (simp add: vals)
  have "map_sum id (\<lambda>p. h' ! the p) (case res of Inl err \<Rightarrow> Inl err | Inr r \<Rightarrow> index r 0)
      = (case map_sum id (map (\<lambda>p. h' ! the p)) res of Inl err \<Rightarrow> Inl err | Inr r \<Rightarrow> index r 0)"
    by (cases res) (simp_all add: index_def)
  then show ?thesis
    using ex v
    by (simp add: Hash_st_def NewInt_def HashWithState_st_def Hash_def HashWithState_def
          split: sum.splits)
qed

lemma Hash_valid:
  assumes "constants_ok cs" "0 < length x" "length x \<le> 16" "\<forall>v\<in>set x. v < modulus"
  shows "\<exists>d. Hash cs x = Inr d"
proof -
  let ?state = "ff_SetBigInt 0 # map ff_SetBigInt x"
  have z: "(0::int) < modulus" by (simp add: modulus_def)
  have t: "2 \<le> length ?state" "length ?state \<le> 17"
    using assms(2,3) by (simp_all add: Suc_le_eq)
  from hashElements_permute [OF constants_okD [OF assms(1) t] t, of "replicate (length ?state) 0"]
  have "length (permute_spec cs ?state) = length ?state" by auto
  then have "take (nat 1) (permute_spec cs ?state) \<noteq> []"
    by (auto simp: take_eq_Nil)
  then have "\<exists>d. index (map ff_ToBigIntRegular (take (nat 1) (permute_spec cs ?state))) 0 = Inr d"
    by (simp add: index_def)
  then show ?thesis
    using HashWithStateEx_valid [OF assms(1-4) z, of 1]
    by (simp add: Hash_def HashWithState_def)
qed

lemma newZeros_value:
  assumes "newZeros js (h, fr) = (h', fr')"
  shows "length fr' = length fr \<and> unchanged h h' \<and>
         (\<forall>j<length fr.
            (j \<in> set js \<longrightarrow> (\<exists>a. fr' ! j = Some a \<and> a < length h' \<and> h' ! a = 0)) \<and>
            (j \<notin> set js \<longrightarrow> fr' ! j = fr ! j))"
  using assms
proof (induction js arbitrary: h fr)
  case Nil
  then show ?case by simp
next
  case (Cons i js)
  let ?h1 = "h @ [0]"
  let ?fr1 = "fr[i := Some (length h)]"
  from Cons.prems have run: "newZeros js (?h1, ?fr1) = (h', fr')"
    by (simp add: NewInt_def)
  from Cons.IH [OF run]
  have len: "length fr' = length fr" and u1: "unchanged ?h1 h'"
    and IH: "\<forall>j<length fr.
            (j \<in> set js \<longrightarrow> (\<exists>a. fr' ! j = Some a \<and> a < length h' \<and> h' ! a = 0)) \<and>
            (j \<notin> set js \<longrightarrow> fr' ! j = ?fr1 ! j)"
    by simp_all
  have u: "unchanged h h'" using unchanged_append u1 by (rule unchanged_trans)
  have new: "length h < length h'" "h' ! length h = 0"
    using unchanged_length [OF u1] unchanged_nth [OF u1, of "length h"] by simp_all
  have "(j \<in> set (i # js) \<longrightarrow> (\<exists>a. fr' ! j = Some a \<and> a < length h' \<and> h' ! a = 0)) \<and>
        (j \<notin> set (i # js) \<longrightarrow> fr' ! j = fr ! j)" if j: "j < length fr" for j
  proof (cases "j \<in> set js")
    case True
    with IH j show ?thesis by simp
  next
    case False
    with IH j have e: "fr' ! j = ?fr1 ! j" by simp
    show ?thesis
    proof (cases "j = i")
      case True
      with e j new show ?thesis by simp
    next
      case neq: False
      with e False show ?thesis by simp
    qed
  qed
  with len u show ?case by blast
qed

lemma frame_values_eq:
  assumes "length fr = length fv"
    and "\<forall>j<length fr. \<exists>a. fr ! j = Some a \<and> a < length h \<and> h ! a = fv ! j"
  shows "(\<forall>p\<in>set fr. \<exists>a. p = Some a \<and> a < length h) \<and> map (\<lambda>p. h ! the p) fr = fv"
proof
  show "\<forall>p\<in>set fr. \<exists>a. p = Some a \<and> a < length h"
  proof
    fix p assume "p \<in> set fr"
    then obtain j where "j < length fr" "p = fr ! j" by (auto simp: in_set_conv_nth)
    with assms(2) show "\<exists>a. p = Some a \<and> a < length h" by blast
  qed
  show "map (\<lambda>p. h ! the p) fr = fv"
  proof (rule nth_equalityI)
    show "length (map (\<lambda>p. h ! the p) fr) = length fv" using assms(1) by simp
  next
    fix j assume "j < length (map (\<lambda>p. h ! the p) fr)"
    then have j: "j < length fr" by simp
    with assms(2) obtain a where "fr ! j = Some a" "h ! a = fv ! j" by blast
    with j show "map (\<lambda>p. h ! the p) fr ! j = fv ! j" by simp
  qed
qed

lemma initial_frame:
  assumes "newZeros [0..<n] (h, replicate n None) = (h', fr)"
  shows "unchanged h h' \<and> (\<forall>p\<in>set fr. \<exists>a. p = Some a \<and> a < length h')
         \<and> map (\<lambda>p. h' ! the p) fr = replicate n 0"
proof -
  from newZeros_value [OF assms]
  have len: "length fr = n" and u: "unchanged h h'"
    and v: "\<forall>j<n. \<exists>a. fr ! j = Some a \<and> a < length h' \<and> h' ! a = 0"
    by simp_all
  have "length fr = length (replicate n (0::int))" using len by simp
  moreover have "\<forall>j<length fr. \<exists>a. fr ! j = Some a \<and> a < length h' \<and> h' ! a = replicate n 0 ! j"
    using v len by simp
  ultimately show ?thesis using frame_values_eq [of fr "replicate n 0" h'] u by blast
qed

lemma reset_frame:
  assumes "newZeros [1..<n] (h, (replicate n None)[0 := Some b]) = (h', fr)" and "b < length h"
  shows "unchanged h h' \<and> (\<forall>p\<in>set fr. \<exists>a. p = Some a \<and> a < length h')
         \<and> map (\<lambda>p. h' ! the p) fr = (replicate n 0)[0 := h ! b]"
proof -
  from newZeros_value [OF assms(1)]
  have len: "length fr = n" and u: "unchanged h h'"
    and v: "\<forall>j<n. (j \<in> set [1..<n] \<longrightarrow> (\<exists>a. fr ! j = Some a \<and> a < length h' \<and> h' ! a = 0)) \<and>
            (j \<notin> set [1..<n] \<longrightarrow> fr ! j = (replicate n None)[0 := Some b] ! j)"
    by simp_all
  have b': "b < length h'" "h' ! b = h ! b"
    using unchanged_length [OF u] unchanged_nth [OF u assms(2)] assms(2) by simp_all
  have "\<exists>a. fr ! j = Some a \<and> a < length h' \<and> h' ! a = (replicate n 0)[0 := h ! b] ! j"
    if j: "j < n" for j
  proof (cases "j = 0")
    case True
    with v j have "fr ! j = Some b" by simp
    with True j b' show ?thesis by simp
  next
    case False
    with v j have "\<exists>a. fr ! j = Some a \<and> a < length h' \<and> h' ! a = 0" by simp
    with False j show ?thesis by simp
  qed
  then have "\<forall>j<length fr. \<exists>a. fr ! j = Some a \<and> a < length h'
      \<and> h' ! a = (replicate n 0)[0 := h ! b] ! j"
    using len by simp
  moreover have "length fr = length ((replicate n (0::int))[0 := h ! b])" using len by simp
  ultimately show ?thesis
    using frame_values_eq [of fr "(replicate n 0)[0 := h ! b]" h'] u by blast
qed

lemma for_range_map: "for_range (map f js) body s = for_range js (\<lambda>i. body (f i)) s"
  by (induction js arbitrary: s) (simp_all split: sum.splits)

lemma for_range_Cons_list:
  "for_range [0..<length (x # xs)] (\<lambda>i. body ((x # xs) ! i)) s
   = (case body x s of Inl e \<Rightarrow> Inl e
      | Inr s' \<Rightarrow> for_range [0..<length xs] (\<lambda>i. body (xs ! i)) s')"
proof -
  have "[0..<length (x # xs)] = 0 # map Suc [0..<length xs]"
    by (simp add: upt_conv_Cons map_Suc_upt del: upt_Suc)
  then show ?thesis
    by (simp add: for_range_map del: upt_Suc split: sum.splits)
qed

lemma valid_values_unchanged:
  assumes "unchanged h h'" "\<forall>p\<in>set ps. \<exists>a. p = Some a \<and> a < length h"
  shows "(\<forall>p\<in>set ps. \<exists>a. p = Some a \<and> a < length h')
         \<and> map (\<lambda>p. h' ! the p) ps = map (\<lambda>p. h ! the p) ps"
  using assms(2) unchanged_length [OF assms(1)] unchanged_nth [OF assms(1)]
  by (induction ps) fastforce+

lemma spongeStep_st_value:
  assumes R: "sponge_rel h s sv" and a: "a < length h"
  shows "case spongeStep_st cs frameSize (Some a) (h, s) of
           (h1, Inl e) \<Rightarrow> unchanged h h1 \<and> spongeStep cs frameSize (h ! a) sv = Inl e
         | (h1, Inr s1) \<Rightarrow> unchanged h h1 \<and>
              (\<exists>sv1. spongeStep cs frameSize (h ! a) sv = Inr sv1 \<and> sponge_rel h1 s1 sv1)"
proof -
  obtain frame k dirty hash where s: "s = (frame, k, dirty, hash)" by (cases s)
  obtain fv kv dv hv where sv: "sv = (fv, kv, dv, hv)" by (cases sv)
  from R s sv have k: "kv = k" and d: "dv = dirty"
    and val: "\<forall>p\<in>set frame. \<exists>a. p = Some a \<and> a < length h"
    and fv: "fv = map (\<lambda>p. h ! the p) frame"
    and hv: "case hash of None \<Rightarrow> hv = None | Some a \<Rightarrow> a < length h \<and> hv = Some (h ! a)"
    by (simp_all add: sponge_rel_def)
  let ?frame = "frame[k := Some a]"
  have val': "\<forall>p\<in>set ?frame. \<exists>a. p = Some a \<and> a < length h"
    using val a by (auto dest!: set_update_subset_insert [THEN subsetD])
  have fv': "map (\<lambda>p. h ! the p) ?frame = fv[k := h ! a]"
    by (simp add: fv map_update)
  show ?thesis
  proof (cases "k < length frame")
    case False
    then show ?thesis
      by (simp add: s sv k fv spongeStep_st_def spongeStep_def)
  next
    case inr: True
    show ?thesis
    proof (cases "int k = frameSize - 1")
      case False
      have "sponge_rel h (?frame, k + 1, True, hash) (fv[k := h ! a], k + 1, True, hv)"
        using val' fv' hv by (simp add: sponge_rel_def)
      then show ?thesis
        using inr False by (simp add: s sv k fv spongeStep_st_def spongeStep_def)
    next
      case True
      obtain h1 res1 where hs: "Hash_st cs h ?frame = (h1, res1)"
        by (cases "Hash_st cs h ?frame")
      from Hash_st_frame [OF hs]
      have u1: "unchanged h h1" and f1: "\<forall>p. res1 = Inr p \<longrightarrow> fresh h h1 p" by auto
      from Hash_st_value [OF val', of cs] hs
      have v1: "map_sum id (\<lambda>p. h1 ! the p) res1 = Hash cs (fv[k := h ! a])"
        by (simp add: fv')
      show ?thesis
      proof (cases res1)
        case (Inl e)
        with v1 have "Hash cs (fv[k := h ! a]) = Inl e" by simp
        then show ?thesis
          using inr True hs Inl u1
          by (simp add: s sv k fv spongeStep_st_def spongeStep_def)
      next
        case (Inr p)
        with f1 obtain b where p: "p = Some b" and b: "b < length h1"
          by (auto simp: fresh_def split: option.splits)
        from v1 Inr p have hv1: "Hash cs (fv[k := h ! a]) = Inr (h1 ! b)" by simp
        obtain h2 fr2 where nz: "newZeros [1..<nat frameSize]
            (h1, (replicate (nat frameSize) None)[0 := Some b]) = (h2, fr2)"
          by (cases "newZeros [1..<nat frameSize]
            (h1, (replicate (nat frameSize) None)[0 := Some b])")
        from reset_frame [OF nz b]
        have u2: "unchanged h1 h2"
          and val2: "\<forall>p\<in>set fr2. \<exists>a. p = Some a \<and> a < length h2"
          and fv2: "map (\<lambda>p. h2 ! the p) fr2 = (replicate (nat frameSize) 0)[0 := h1 ! b]"
          by simp_all
        have b2: "b < length h2" "h2 ! b = h1 ! b"
          using unchanged_length [OF u2] unchanged_nth [OF u2 b] b by simp_all
        have rel: "sponge_rel h2 (fr2, 1, False, Some b)
            ((newFrame frameSize)[0 := h1 ! b], 1, False, Some (h1 ! b))"
          using val2 fv2 b2 by (simp add: sponge_rel_def newFrame_def)
        have "unchanged h h2" using u1 u2 by (rule unchanged_trans)
        then show ?thesis
          using inr True hs Inr p nz hv1 rel
          by (simp add: s sv k fv spongeStep_st_def spongeStep_def)
      qed
    qed
  qed
qed

lemma sponge_rel_unchanged_inputs:
  assumes "unchanged h h1" "\<forall>p\<in>set ps. \<exists>a. p = Some a \<and> a < length h"
  shows "\<forall>p\<in>set ps. \<exists>a. p = Some a \<and> a < length h1"
    and "map (\<lambda>p. h1 ! the p) ps = map (\<lambda>p. h ! the p) ps"
  using valid_values_unchanged [OF assms] by simp_all

lemma spongeLoop_st_value:
  assumes "sponge_rel h s sv" and "\<forall>p\<in>set inputs. \<exists>a. p = Some a \<and> a < length h"
  shows "case spongeLoop_st cs frameSize inputs (h, s) of
           (h1, Inl e) \<Rightarrow>
              for_range [0..<length inputs]
                (\<lambda>i. spongeStep cs frameSize (map (\<lambda>p. h ! the p) inputs ! i)) sv = Inl e
         | (h1, Inr s1) \<Rightarrow>
              (\<exists>sv1. for_range [0..<length inputs]
                  (\<lambda>i. spongeStep cs frameSize (map (\<lambda>p. h ! the p) inputs ! i)) sv = Inr sv1
                \<and> sponge_rel h1 s1 sv1)"
  using assms
proof (induction inputs arbitrary: h s sv)
  case Nil
  then show ?case by simp
next
  case (Cons v inputs)
  from Cons.prems(2) obtain a where v: "v = Some a" and a: "a < length h" by auto
  let ?vals = "map (\<lambda>p. h ! the p) inputs"
  have unfold: "for_range [0..<length (v # inputs)]
        (\<lambda>i. spongeStep cs frameSize (map (\<lambda>p. h ! the p) (v # inputs) ! i)) sv
      = (case spongeStep cs frameSize (h ! a) sv of Inl e \<Rightarrow> Inl e
         | Inr s' \<Rightarrow> for_range [0..<length inputs] (\<lambda>i. spongeStep cs frameSize (?vals ! i)) s')"
    using for_range_Cons_list [of "h ! a" ?vals "spongeStep cs frameSize" sv]
    by (simp add: v del: upt_Suc split: sum.splits)
  obtain h1 res1 where st: "spongeStep_st cs frameSize v (h, s) = (h1, res1)"
    by (cases "spongeStep_st cs frameSize v (h, s)")
  note step = spongeStep_st_value [OF Cons.prems(1) a, of cs frameSize]
  show ?case
  proof (cases res1)
    case (Inl e)
    with step st v have "spongeStep cs frameSize (h ! a) sv = Inl e" by simp
    with st Inl show ?thesis
      by (simp only: unfold spongeLoop_st.simps prod.case sum.case)
  next
    case (Inr s1)
    with step st v obtain sv1 where u: "unchanged h h1"
      and sv1: "spongeStep cs frameSize (h ! a) sv = Inr sv1" and rel: "sponge_rel h1 s1 sv1"
      by auto
    have ptrs: "\<forall>p\<in>set inputs. \<exists>a. p = Some a \<and> a < length h" using Cons.prems(2) by simp
    note keep = sponge_rel_unchanged_inputs [OF u ptrs]
    from Cons.IH [OF rel keep(1), unfolded keep(2)] st Inr sv1
    show ?thesis
      by (simp only: unfold spongeLoop_st.simps prod.case sum.case)
  qed
qed

lemma SpongeHashX_st_value:
  assumes "\<forall>p\<in>set inputs. \<exists>a. p = Some a \<and> a < length h"
  shows "case SpongeHashX_st cs h inputs frameSize of
           (h', res) \<Rightarrow> map_sum id (map_option (\<lambda>a. h' ! a)) res
                        = SpongeHashX cs (map (\<lambda>p. h ! the p) inputs) frameSize"
proof (cases "frameSize < 2 \<or> frameSize > 16")
  case True
  then show ?thesis by (auto simp: SpongeHashX_st_def SpongeHashX_def)
next
  case False
  obtain h0 frame where nz:
    "newZeros [0..<nat frameSize] (h, replicate (nat frameSize) None) = (h0, frame)"
    by (cases "newZeros [0..<nat frameSize] (h, replicate (nat frameSize) None)")
  from initial_frame [OF nz]
  have u0: "unchanged h h0" and val0: "\<forall>p\<in>set frame. \<exists>a. p = Some a \<and> a < length h0"
    and fv0: "map (\<lambda>p. h0 ! the p) frame = replicate (nat frameSize) 0"
    by simp_all
  have rel0: "sponge_rel h0 (frame, 0, False, None) (newFrame frameSize, 0, False, None)"
    using val0 fv0 by (simp add: sponge_rel_def newFrame_def)
  note keep = sponge_rel_unchanged_inputs [OF u0 assms]
  let ?loop = "for_range [0..<length inputs]
      (\<lambda>i. spongeStep cs frameSize (map (\<lambda>p. h ! the p) inputs ! i))
      (newFrame frameSize, 0, False, None)"
  obtain h1 res1 where lp:
    "spongeLoop_st cs frameSize inputs (h0, frame, 0, False, None) = (h1, res1)"
    by (cases "spongeLoop_st cs frameSize inputs (h0, frame, 0, False, None)")
  note sim = spongeLoop_st_value [OF rel0 keep(1), of cs frameSize, unfolded keep(2) lp prod.case]
  have sp: "SpongeHashX cs (map (\<lambda>p. h ! the p) inputs) frameSize
      = andThen ?loop (\<lambda>(frame, k, dirty, hash).
             if dirty then
               (case Hash cs frame of Inl err \<Rightarrow> Inl err | Inr h \<Rightarrow> Inr (Some h))
             else Inr hash)"
    using False by (simp add: SpongeHashX_def)
  show ?thesis
  proof (cases res1)
    case (Inl e)
    with sim have "?loop = Inl e" by simp
    then show ?thesis
      using False nz lp Inl by (simp add: SpongeHashX_st_def sp)
  next
    case (Inr s1)
    with sim obtain sv1 where l: "?loop = Inr sv1" and rel: "sponge_rel h1 s1 sv1" by auto
    obtain frame1 k1 dirty1 hash1 where s1: "s1 = (frame1, k1, dirty1, hash1)" by (cases s1)
    obtain fv kv dv hv where sv1: "sv1 = (fv, kv, dv, hv)" by (cases sv1)
    from rel s1 sv1 have d: "dv = dirty1"
      and val: "\<forall>p\<in>set frame1. \<exists>a. p = Some a \<and> a < length h1"
      and fv: "fv = map (\<lambda>p. h1 ! the p) frame1"
      and hv: "case hash1 of None \<Rightarrow> hv = None | Some a \<Rightarrow> a < length h1 \<and> hv = Some (h1 ! a)"
      by (simp_all add: sponge_rel_def)
    show ?thesis
    proof (cases dirty1)
      case True
      obtain h2 res2 where hs: "Hash_st cs h1 frame1 = (h2, res2)"
        by (cases "Hash_st cs h1 frame1")
      from Hash_st_value [OF val, of cs] hs
      have hv2: "Hash cs fv = map_sum id (\<lambda>p. h2 ! the p) res2" by (simp add: fv)
      from Hash_st_frame [OF hs] have "\<forall>p. res2 = Inr p \<longrightarrow> p \<noteq> None"
        by (auto simp: fresh_def)
      then have "map_sum id (map_option (\<lambda>a. h2 ! a)) res2
          = (case Hash cs fv of Inl err \<Rightarrow> Inl err | Inr h \<Rightarrow> Inr (Some h))"
        unfolding hv2 by (cases res2) auto
      then show ?thesis
        using False nz lp Inr s1 True hs l sv1 d
        by (simp add: SpongeHashX_st_def sp)
    next
      case dirty: False
      have "map_option (\<lambda>a. h1 ! a) hash1 = hv"
        using hv by (cases hash1) simp_all
      then show ?thesis
        using False nz lp Inr s1 dirty l sv1 d
        by (simp add: SpongeHashX_st_def sp)
    qed
  qed
qed

lemma SetBytes_foldl_bound:
  "0 \<le> a \<Longrightarrow> 0 \<le> foldl (\<lambda>acc b. acc * 256 + uint (b :: 8 word)) a bs
     \<and> foldl (\<lambda>acc b. acc * 256 + uint b) a bs < (a + 1) * 256 ^ length bs"
proof (induction bs arbitrary: a)
  case Nil
  then show ?case by simp
next
  case (Cons b bs)
  have b: "0 \<le> uint b" "uint b < 256"
    using uint_lt2p [of b] by simp_all
  then have nn: "0 \<le> a * 256 + uint b" using Cons.prems by simp
  from Cons.IH [OF nn]
  have nn': "0 \<le> foldl (\<lambda>acc b. acc * 256 + uint b) (a * 256 + uint b) bs"
    and lt: "foldl (\<lambda>acc b. acc * 256 + uint b) (a * 256 + uint b) bs
        < (a * 256 + uint b + 1) * 256 ^ length bs"
    by simp_all
  have "(a * 256 + uint b + 1) * 256 ^ length bs \<le> ((a + 1) * 256) * 256 ^ length bs"
    using b by (intro mult_right_mono) simp_all
  also have "\<dots> = (a + 1) * 256 ^ length (b # bs)" by simp
  finally have le: "(a * 256 + uint b + 1) * 256 ^ length bs \<le> (a + 1) * 256 ^ length (b # bs)" .
  show ?case using nn' less_le_trans [OF lt le] by simp
qed

lemma SetBytes_chunk_in_field:
  "0 \<le> SetBytes (chunk msg i) \<and> SetBytes (chunk msg i) < modulus"
proof -
  have len: "length (chunk msg i) \<le> 31" by (simp add: chunk_def spongeChunkSize_def)
  from SetBytes_foldl_bound [of 0 "chunk msg i"]
  have nn: "0 \<le> SetBytes (chunk msg i)"
    and lt: "SetBytes (chunk msg i) < 256 ^ length (chunk msg i)"
    by (simp_all add: SetBytes_def)
  have "(256::int) ^ length (chunk msg i) \<le> 256 ^ 31"
    using len by (intro power_increasing) simp_all
  also have "(256::int) ^ 31 < modulus" by (simp add: modulus_def)
  finally show ?thesis using nn lt by simp
qed

section \<open>Properties of the package\<close>

text \<open>
  C1. For a state of width \<open>t\<close> between 2 and 17, and tables that hold every entry read,
  \<open>hashElements\<close> does not panic and returns the state that the schedule of section 4.2
  computes: initial ARK, three full rounds with \<open>M\<close>, the transition round with \<open>P\<close>, the
  partial rounds on slot 0 with the factors \<open>S\<close> applied to the slots as they are before the
  update, three full rounds with \<open>M\<close>, and a last S-box and mix without ARK; every mix sends
  input slot \<open>j\<close> to output slot \<open>i\<close> with coefficient \<open>m[j][i]\<close>.
\<close>

theorem hashElements_schedule:
  assumes "tables_ok cs (length state)"
    and "2 \<le> length state" and "length state \<le> 17"
    and "length scratch = length state"
  shows "map_sum id fst (hashElements cs state scratch) = Inr (permute_spec cs state)"
proof -
  from hashElements_permute [OF assms(1-3), of scratch] assms(4)
  obtain scratch' where "hashElements cs state scratch = Inr (permute_spec cs state, scratch')"
    by auto
  then show ?thesis by simp
qed

theorem hashElements_schedule_witness:
  "tables_ok small_constants 2 \<and>
   map_sum id fst (hashElements small_constants [1, 2] [0, 0])
     = Inr (permute_spec small_constants [1, 2])"
proof -
  have ok: "tables_ok small_constants 2"
    by (rule small_tables_ok) simp_all
  then have "tables_ok small_constants (length [1, 2 :: int])"
    by (simp add: numeral_2_eq_2)
  from hashElements_schedule [OF this, of "[0, 0]"] ok show ?thesis
    by simp
qed

text \<open>
  C4. With tables that hold every entry read, \<open>HashWithStateEx\<close> returns an error exactly when
  the number of inputs is 0 or above 16, or an input is \<open>\<ge> p\<close>, or \<open>initState\<close> is \<open>\<ge> p\<close>, or
  \<open>nOuts\<close> is outside \<open>[1, |inputs| + 1]\<close>; otherwise it returns \<open>nOuts\<close> values. No error
  and no panic comes after the validation.
\<close>

theorem HashWithStateEx_errors:
  assumes "constants_ok cs"
  shows "((\<exists>e. HashWithStateEx cs inputs initState nOuts = Inl e) \<longleftrightarrow>
            (length inputs = 0 \<or> 16 < length inputs \<or> (\<exists>x\<in>set inputs. modulus \<le> x)
             \<or> modulus \<le> initState \<or> nOuts < 1 \<or> int (length inputs) + 1 < nOuts))
         \<and> ((\<forall>e. HashWithStateEx cs inputs initState nOuts \<noteq> Inl e) \<longrightarrow>
            (\<exists>r. HashWithStateEx cs inputs initState nOuts = Inr r \<and> int (length r) = nOuts))
         \<and> HashWithStateEx cs inputs initState nOuts \<noteq> Inl IndexOutOfRange"
proof (cases "length inputs = 0 \<or> 16 < length inputs \<or> (\<exists>x\<in>set inputs. modulus \<le> x)
             \<or> modulus \<le> initState \<or> nOuts < 1 \<or> int (length inputs) + 1 < nOuts")
  case True
  then have "\<exists>e. HashWithStateEx cs inputs initState nOuts = Inl e
               \<and> e \<noteq> IndexOutOfRange"
    by (auto simp: HashWithStateEx_def Let_def length_NROUNDSP CheckBigIntArrayInField_def
          CheckBigIntInField_def list_all_iff not_less)
  with True show ?thesis by auto
next
  case False
  then have v: "0 < length inputs" "length inputs \<le> 16" "\<forall>x\<in>set inputs. x < modulus"
    "initState < modulus" "1 \<le> nOuts" "nOuts \<le> int (length inputs) + 1"
    by (auto simp: not_less not_le)
  have l: "length (permute_spec cs (ff_SetBigInt initState # map ff_SetBigInt inputs))
      = Suc (length inputs)"
    using hashElements_permute [OF constants_okD [OF assms], of
        "ff_SetBigInt initState # map ff_SetBigInt inputs"
        "replicate (Suc (length inputs)) 0"] v(1,2)
    by (auto simp: Suc_le_eq)
  show ?thesis
    using False v(5,6) by (simp add: HashWithStateEx_valid [OF assms v] l)
qed

theorem HashWithStateEx_errors_witness:
  "constants_ok small_constants \<and>
   (\<exists>r. HashWithStateEx small_constants [1, 2] 0 2 = Inr r \<and> int (length r) = 2) \<and>
   (\<exists>e. HashWithStateEx small_constants [1, 2] 0 4 = Inl e)"
  using HashWithStateEx_errors [OF small_constants_ok, of "[1, 2]" 0 2]
    HashWithStateEx_errors [OF small_constants_ok, of "[1, 2]" 0 4]
  by (simp add: small_constants_ok modulus_def)

text \<open>
  C8. With \<open>Element.Exp\<close> the modular power, \<open>exp5\<close> replaces \<open>a\<close> by \<open>a ^ 5 mod p\<close>, the value
  that four modular multiplications by \<open>a\<close> give.
\<close>

theorem exp5_naive:
  "exp5 a = a ^ 5 mod modulus \<and>
   exp5 a = ff_Mul (ff_Mul (ff_Mul (ff_Mul a a) a) a) a \<and>
   0 \<le> exp5 a \<and> exp5 a < modulus"
proof -
  have "ff_Mul (ff_Mul (ff_Mul (ff_Mul a a) a) a) a = (a * a * a * a * a) mod modulus"
    by (simp add: ff_Mul_def mod_simps)
  moreover have "a * a * a * a * a = a ^ 5"
    by (simp add: power_numeral_reduce mult.assoc)
  ultimately show ?thesis
    by (simp add: exp5_def ff_Exp_def modulus_def)
qed

text \<open>
  C9. \<open>Hash\<close> is \<open>HashWithState\<close> with the capacity element 0: the same digest on valid
  inputs, the same error on invalid ones.
\<close>

theorem Hash_is_HashWithState_zero:
  "Hash cs x = HashWithState cs x 0"
  by (simp add: Hash_def)

text \<open>
  C6 as amended. For a frame size between 2 and 16, \<open>SpongeHashX\<close> on the empty sequence and
  \<open>HashBytesX\<close> on the empty byte string hash nothing: they return a nil digest and no error.
\<close>

theorem sponge_empty_input:
  assumes "2 \<le> frameSize" and "frameSize \<le> 16"
  shows "SpongeHashX cs [] frameSize = Inr None \<and> HashBytesX cs [] frameSize = Inr None"
  using assms by (simp add: SpongeHashX_def HashBytesX_def spongeChunkSize_def)

theorem sponge_empty_input_witness:
  "(2::int) \<le> 16 \<and> SpongeHashX small_constants [] 16 = Inr None
   \<and> HashBytesX small_constants [] 16 = Inr None"
  using sponge_empty_input [of 16 small_constants] by simp

theorem sponge_empty_input_counterexample:
  "SpongeHashX small_constants [] 2 = Inr None
   \<and> \<not> ((\<exists>e. SpongeHashX small_constants [] 2 = Inl e)
        \<or> SpongeHashX small_constants [] 2 = map_sum id Some (Hash small_constants [0, 0]))
   \<and> HashBytesX small_constants [] 2 = Inr None
   \<and> \<not> ((\<exists>e. HashBytesX small_constants [] 2 = Inl e)
        \<or> HashBytesX small_constants [] 2 = map_sum id Some (Hash small_constants [0, 0]))"
proof -
  have "SpongeHashX small_constants [] 2 = Inr None"
    "HashBytesX small_constants [] 2 = Inr None"
    by (simp_all add: SpongeHashX_def HashBytesX_def spongeChunkSize_def)
  moreover have "map_sum id Some x \<noteq> Inr None" for x :: "error + int"
    by (cases x) simp_all
  ultimately show ?thesis by (simp add: eq_commute [of "Inr None"])
qed

text \<open>
  C5. For a frame size \<open>F\<close> between 2 and 16 and between 1 and \<open>F - 1\<close> inputs, \<open>SpongeHashX\<close>
  returns what \<open>Hash\<close> returns on the inputs padded with zeros on the right to length \<open>F\<close>:
  the same digest, or the same error.
\<close>

theorem SpongeHashX_single_frame:
  assumes "2 \<le> frameSize" and "frameSize \<le> 16"
    and "1 \<le> length x" and "int (length x) \<le> frameSize - 1"
  shows "SpongeHashX cs x frameSize
         = map_sum id Some (Hash cs (x @ replicate (nat frameSize - length x) 0))"
proof -
  have "for_range [0..<length x] (\<lambda>i. spongeStep cs frameSize (x ! i))
          (newFrame frameSize, 0, False, None)
        = Inr (x @ replicate (nat frameSize - length x) 0, length x, True, None)"
    using sponge_prefix [OF le_refl assms(4), of cs] assms(3) by (auto simp: Suc_le_eq)
  then show ?thesis
    using assms(1,2) by (simp add: SpongeHashX_def split: sum.splits)
qed

theorem SpongeHashX_single_frame_witness:
  "(2::int) \<le> 3 \<and> (3::int) \<le> 16 \<and> 1 \<le> length [5, 7 :: int] \<and>
   SpongeHashX small_constants [5, 7] 3 = map_sum id Some (Hash small_constants [5, 7, 0])"
  using SpongeHashX_single_frame [of 3 "[5, 7]" small_constants]
  by (simp add: numeral_3_eq_3)

declare chunks_spec.simps [simp del]

lemma chunk_drop: "chunk (drop 31 msg) i = chunk msg (Suc i)"
  by (simp add: chunk_def spongeChunkSize_def add.commute)

lemma chunks_spec_eq:
  "chunks_spec msg
   = map (\<lambda>i. SetBytes (chunk msg i)) [0..<length msg div spongeChunkSize]
     @ (if length msg mod spongeChunkSize \<noteq> 0 then [SetBytes (lastChunk msg)] else [])"
proof (induction msg rule: chunks_spec.induct)
  case (1 msg)
  show ?case
  proof (cases "length msg < 31")
    case True
    then show ?thesis
      by (cases "msg = []")
         (simp_all add: chunks_spec.simps [of msg] chunks_spec.simps [of "[]"]
            spongeChunkSize_def lastChunk_def)
  next
    case False
    then have ne: "msg \<noteq> []" and ge: "31 \<le> length msg" by auto
    have d: "length msg div 31 = Suc ((length msg - 31) div 31)"
      using ge by (simp add: le_div_geq)
    have m: "(length msg - 31) mod 31 = length msg mod 31"
      using ge by (simp add: le_mod_geq)
    have l: "lastChunk (drop 31 msg) = lastChunk msg"
      using ge by (simp add: lastChunk_def spongeChunkSize_def d add.commute)
    have c0: "chunk msg 0 = take 31 msg"
      by (simp add: chunk_def spongeChunkSize_def)
    have "chunks_spec msg = SetBytes (take 31 msg) # chunks_spec (drop 31 msg)"
      using ne False by (simp add: chunks_spec.simps [of msg])
    also have "chunks_spec (drop 31 msg)
        = map (\<lambda>i. SetBytes (chunk msg (Suc i))) [0..<(length msg - 31) div 31]
          @ (if length msg mod 31 \<noteq> 0 then [SetBytes (lastChunk msg)] else [])"
      using "1.IH" [OF ne False] by (simp add: spongeChunkSize_def chunk_drop m l)
    finally show ?thesis
      by (simp add: spongeChunkSize_def d map_upt_Suc c0 del: upt_Suc)
  qed
qed

lemma hashBytesStep_spongeStep:
  "hashBytesStep cs frameSize msg i = spongeStep cs frameSize (SetBytes (chunk msg i))"
  by (rule ext) (simp add: hashBytesStep_def spongeStep_def)

lemma hashBytes_loop:
  "for_range [0..<n] (hashBytesStep cs frameSize msg) s
   = for_range [0..<n]
       (\<lambda>i. spongeStep cs frameSize ((map (\<lambda>i. SetBytes (chunk msg i)) [0..<n] @ ys) ! i)) s"
  by (rule for_range_cong) (simp add: hashBytesStep_spongeStep nth_append)

lemma HashBytesX_SpongeHashX:
  "HashBytesX cs msg frameSize = SpongeHashX cs (chunks_spec msg) frameSize"
proof (cases "frameSize < 2 \<or> frameSize > 16")
  case True
  then show ?thesis by (auto simp: HashBytesX_def SpongeHashX_def)
next
  case F: False
  let ?n = "length msg div spongeChunkSize"
  let ?s0 = "(newFrame frameSize, 0 :: nat, False, None :: int option)"
  let ?full = "map (\<lambda>i. SetBytes (chunk msg i)) [0..<?n]"
  let ?run = "for_range [0..<?n] (hashBytesStep cs frameSize msg) ?s0"
  show ?thesis
  proof (cases "length msg mod spongeChunkSize = 0")
    case True
    have "SpongeHashX cs (?full @ []) frameSize
        = andThen ?run (\<lambda>(frame, k, dirty, hash).
             if dirty then
               (case Hash cs frame of Inl err \<Rightarrow> Inl err | Inr h \<Rightarrow> Inr (Some h))
             else Inr hash)"
      unfolding SpongeHashX_def hashBytes_loop [where ys = "[]"] using F by simp
    moreover have "chunks_spec msg = ?full @ []"
      using True by (simp add: chunks_spec_eq)
    ultimately show ?thesis
      using F True
      by (cases ?run) (auto simp: HashBytesX_def)
  next
    case False
    let ?v = "SetBytes (lastChunk msg)"
    have "length (?full @ [?v]) = Suc ?n" by simp
    moreover have "(?full @ [?v]) ! ?n = ?v" by (simp add: nth_append)
    ultimately have "SpongeHashX cs (?full @ [?v]) frameSize
        = andThen (andThen ?run (spongeStep cs frameSize ?v)) (\<lambda>(frame, k, dirty, hash).
             if dirty then
               (case Hash cs frame of Inl err \<Rightarrow> Inl err | Inr h \<Rightarrow> Inr (Some h))
             else Inr hash)"
      unfolding SpongeHashX_def hashBytes_loop [where ys = "[?v]"]
      using F by (simp only: for_range_snoc [OF le0] if_False)
    moreover have "chunks_spec msg = ?full @ [?v]"
      using False by (simp add: chunks_spec_eq)
    ultimately show ?thesis
      using F False
      by (cases ?run) (auto simp: HashBytesX_def spongeStep_def Let_def split: sum.splits)
  qed
qed

text \<open>
  C3. For a non-empty message and a frame size between 2 and 16, \<open>HashBytesX\<close> returns what
  \<open>SpongeHashX\<close> returns on the message's sequence of 31-byte chunks, the short last chunk
  padded with zeros on the right and each chunk read as a big-endian integer; two messages
  with the same chunk sequence have the same digest.
\<close>

theorem HashBytesX_chunks:
  assumes "msg \<noteq> []" and "2 \<le> frameSize" and "frameSize \<le> 16"
  shows "HashBytesX cs msg frameSize = SpongeHashX cs (chunks_spec msg) frameSize
         \<and> (\<forall>msg'. chunks_spec msg' = chunks_spec msg
               \<longrightarrow> HashBytesX cs msg' frameSize = HashBytesX cs msg frameSize)"
  by (simp add: HashBytesX_SpongeHashX)

theorem HashBytesX_chunks_witness:
  "[97 :: 8 word] \<noteq> [] \<and> (2::int) \<le> 2 \<and> (2::int) \<le> 16 \<and>
   HashBytesX small_constants [97] 2 = SpongeHashX small_constants (chunks_spec [97]) 2"
  using HashBytesX_chunks [of "[97]" 2 small_constants] by simp

text \<open>
  C2 at the one-byte message \<open>a\<close>, frame size 2: \<open>HashBytesXLessAlloc\<close> stores the padded
  chunk and returns the 32 zero bytes of the untouched \<open>currentHash\<close> without hashing, while
  \<open>HashBytesX\<close> returns the digest of the frame \<open>[0x61 * 2^240, 0]\<close>.
\<close>

theorem HashBytesXLessAlloc_short_message:
  "HashBytesXLessAlloc cs [97] 2 = Inr (replicate 32 0) \<and>
   HashBytesX cs [97] 2 = map_sum id Some (Hash cs [97 * 2 ^ 240, 0])"
proof -
  have "HashBytesXLessAlloc cs [97] 2 = Inr (ff_Bytes 0)"
    unfolding HashBytesXLessAlloc_def by (simp add: spongeChunkSize_def)
  moreover have "HashBytesX cs [97] 2 = map_sum id Some (Hash cs [SetBytes (lastChunk [97]), 0])"
    unfolding HashBytesX_def newFrame_2 by (simp add: spongeChunkSize_def split: sum.splits)
  ultimately show ?thesis
    by (simp only: ff_Bytes_zero SetBytes_a)
qed

text \<open>
  The same two functions on a message of two whole chunks, frame size 2, with tables that hold
  every entry read: \<open>HashBytesXLessAlloc\<close> runs the permutation on the chunks followed by
  a zero, \<open>HashBytesX\<close> on a zero followed by the chunks.
\<close>

lemma HashBytesXLessAlloc_whole_frame:
  assumes ok: "constants_ok cs" and len: "length msg = 62"
  shows "HashBytesXLessAlloc cs msg 2
           = Inr (ff_Bytes (permute_spec cs [SetBytes (chunk msg 0), SetBytes (chunk msg 1), 0] ! 0))
         \<and> HashBytesX cs msg 2
           = Inr (Some (ff_ToBigIntRegular
                (permute_spec cs [0, SetBytes (chunk msg 0), SetBytes (chunk msg 1)] ! 0)))"
proof -
  let ?c0 = "SetBytes (chunk msg 0)" and ?c1 = "SetBytes (chunk msg (Suc 0))"
  have fld: "0 \<le> ?c0" "?c0 < modulus" "0 \<le> ?c1" "?c1 < modulus"
    using SetBytes_chunk_in_field [of msg 0] SetBytes_chunk_in_field [of msg "Suc 0"] by simp_all
  then have red: "?c0 mod modulus = ?c0" "?c1 mod modulus = ?c1" by simp_all
  have n: "length msg div spongeChunkSize = 2" "length msg mod spongeChunkSize = 0"
    by (simp_all add: len spongeChunkSize_def)
  have t3: "tables_ok cs 3" using ok by (rule constants_okD) simp_all
  from hashElements_permute [of cs "[?c0, ?c1, 0]" "[0, 0, 0]"] t3
  obtain scratch' where he: "hashElements cs [?c0, ?c1, 0] [0, 0, 0]
      = Inr (permute_spec cs [?c0, ?c1, 0], scratch')"
    and l: "length (permute_spec cs [?c0, ?c1, 0]) = 3"
    by (auto simp: numeral_3_eq_3)
  have hw: "hashWithStateExBytes cs [?c0, ?c1, 0] [0, 0, 0]
      = Inr (permute_spec cs [?c0, ?c1, 0] ! 0, permute_spec cs [?c0, ?c1, 0], scratch')"
    using he l by (simp add: hashWithStateExBytes_def length_NROUNDSP)
  have less: "HashBytesXLessAlloc cs msg 2 = Inr (ff_Bytes (permute_spec cs [?c0, ?c1, 0] ! 0))"
    unfolding HashBytesXLessAlloc_def n
    by (simp add: lessAllocStep_def ff_SetBytesLessMod_def red hw numeral_3_eq_3
          numeral_2_eq_2)
  have z: "(0::int) < modulus" by (simp add: modulus_def)
  have "HashWithStateEx cs [?c0, ?c1] 0 1
      = Inr (map ff_ToBigIntRegular (take (nat 1) (permute_spec cs [0, ?c0, ?c1])))"
    using HashWithStateEx_valid [OF ok, of "[?c0, ?c1]" 0 1] fld z
    by (simp add: ff_SetBigInt_def red)
  moreover have "length (permute_spec cs [0, ?c0, ?c1]) = 3"
    using hashElements_permute [of cs "[0, ?c0, ?c1]" "[0, 0, 0]"] t3
    by (auto simp: numeral_3_eq_3)
  ultimately have "Hash cs [?c0, ?c1] = Inr (ff_ToBigIntRegular (permute_spec cs [0, ?c0, ?c1] ! 0))"
    by (cases "permute_spec cs [0, ?c0, ?c1]")
       (simp_all add: Hash_def HashWithState_def index_def)
  then have "HashBytesX cs msg 2
      = Inr (Some (ff_ToBigIntRegular (permute_spec cs [0, ?c0, ?c1] ! 0)))"
    unfolding HashBytesX_def n
    by (simp add: hashBytesStep_def newFrame_def numeral_2_eq_2)
  with less show ?thesis by simp
qed

text \<open>
  C10. \<open>HashWithStateEx\<close>, \<open>Hash\<close> and \<open>SpongeHashX\<close>, written over the store of \<open>big.Int\<close>
  objects, leave every object that exists before the call with its value, whether they
  return a result or an error, so the caller's inputs are not modified; and each digest
  they return is a pointer to an object allocated during the call, so it is none of the
  inputs. (\<open>SpongeHashX\<close> on an empty sequence returns no digest.)
\<close>

theorem caller_inputs_not_modified:
  "(case HashWithStateEx_st cs h inpBI initState nOuts of
      (h', res) \<Rightarrow> unchanged h h' \<and> (\<forall>r. res = Inr r \<longrightarrow> (\<forall>p\<in>set r. fresh h h' p)))
   \<and> (case Hash_st cs h inpBI of
      (h', res) \<Rightarrow> unchanged h h' \<and> (\<forall>p. res = Inr p \<longrightarrow> fresh h h' p))
   \<and> (case SpongeHashX_st cs h inputs frameSize of
      (h', res) \<Rightarrow> unchanged h h' \<and> (\<forall>p. res = Inr p \<longrightarrow> inputs \<noteq> [] \<longrightarrow> fresh h h' p))"
proof (intro conjI)
  obtain h' res where e: "HashWithStateEx_st cs h inpBI initState nOuts = (h', res)"
    by (cases "HashWithStateEx_st cs h inpBI initState nOuts")
  from HashWithStateEx_st_frame [OF e] e
  show "case HashWithStateEx_st cs h inpBI initState nOuts of
      (h', res) \<Rightarrow> unchanged h h' \<and> (\<forall>r. res = Inr r \<longrightarrow> (\<forall>p\<in>set r. fresh h h' p))"
    by simp
next
  obtain h' res where e: "Hash_st cs h inpBI = (h', res)"
    by (cases "Hash_st cs h inpBI")
  from Hash_st_frame [OF e] e
  show "case Hash_st cs h inpBI of
      (h', res) \<Rightarrow> unchanged h h' \<and> (\<forall>p. res = Inr p \<longrightarrow> fresh h h' p)"
    by simp
next
  obtain h' res where e: "SpongeHashX_st cs h inputs frameSize = (h', res)"
    by (cases "SpongeHashX_st cs h inputs frameSize")
  from SpongeHashX_st_frame [OF e] e
  show "case SpongeHashX_st cs h inputs frameSize of
      (h', res) \<Rightarrow> unchanged h h' \<and> (\<forall>p. res = Inr p \<longrightarrow> inputs \<noteq> [] \<longrightarrow> fresh h h' p)"
    by simp
qed

theorem caller_inputs_not_modified_witness:
  "(\<exists>h' r. HashWithStateEx_st small_constants [5, 7] [Some 0, Some 1] (Some 0) 2 = (h', Inr r)
       \<and> unchanged [5, 7] h' \<and> (\<forall>p\<in>set r. fresh [5, 7] h' p))
   \<and> (\<exists>h' p. Hash_st small_constants [5, 7] [Some 0, Some 1] = (h', Inr p)
       \<and> unchanged [5, 7] h' \<and> fresh [5, 7] h' p)
   \<and> (\<exists>h' p. SpongeHashX_st small_constants [5, 7] [Some 0, Some 1] 3 = (h', Inr p)
       \<and> unchanged [5, 7] h' \<and> fresh [5, 7] h' p)"
proof -
  note inst = caller_inputs_not_modified [where cs = small_constants and h = "[5, 7]"
      and inpBI = "[Some 0, Some 1]" and initState = "Some 0" and nOuts = 2
      and inputs = "[Some 0, Some 1]" and frameSize = 3]
  have m: "(5::int) < modulus" "(7::int) < modulus" "(0::int) < modulus"
    by (simp_all add: modulus_def)
  have "\<exists>r. HashWithStateEx small_constants [5, 7] 5 2 = Inr r"
    using HashWithStateEx_valid [OF small_constants_ok, of "[5, 7]" 5 2] m by simp
  moreover have "case HashWithStateEx_st small_constants [5, 7] [Some 0, Some 1] (Some 0) 2 of
      (h', res) \<Rightarrow> map_sum id (map (\<lambda>p. h' ! the p)) res
         = HashWithStateEx small_constants (map (\<lambda>p. [5, 7] ! the p) [Some 0, Some 1]) ([5, 7] ! 0) 2"
    by (rule HashWithStateEx_st_value) simp_all
  ultimately have 1: "\<exists>h' r. HashWithStateEx_st small_constants [5, 7] [Some 0, Some 1] (Some 0) 2
      = (h', Inr r)"
    by (cases "HashWithStateEx_st small_constants [5, 7] [Some 0, Some 1] (Some 0) 2")
       (auto simp: map_sum_def split: sum.splits)
  have hash_ok: "\<exists>h' p. Hash_st small_constants h ptrs = (h', Inr p)"
    if "\<forall>p\<in>set ptrs. \<exists>a. p = Some a \<and> a < length h"
      and "\<exists>d. Hash small_constants (map (\<lambda>p. h ! the p) ptrs) = Inr d" for h ptrs
    using Hash_st_value [OF that(1), of small_constants] that(2)
    by (cases "Hash_st small_constants h ptrs") (auto simp: map_sum_def split: sum.splits)
  have "\<exists>d. Hash small_constants [5, 7] = Inr d"
    using Hash_valid [OF small_constants_ok, of "[5, 7]"] m by simp
  then have 2: "\<exists>h' p. Hash_st small_constants [5, 7] [Some 0, Some 1] = (h', Inr p)"
    by (intro hash_ok) simp_all
  have "\<exists>d. Hash small_constants [5, 7, 0] = Inr d"
    using Hash_valid [OF small_constants_ok, of "[5, 7, 0]"] m by simp
  then have "\<exists>h' p. Hash_st small_constants [5, 7, 0, 0, 0] [Some 0, Some 1, Some 4] = (h', Inr p)"
    by (intro hash_ok) simp_all
  moreover have "SpongeHashX_st small_constants [5, 7] [Some 0, Some 1] 3
      = Hash_st small_constants [5, 7, 0, 0, 0] [Some 0, Some 1, Some 4]"
    by (simp add: SpongeHashX_st_def spongeStep_st_def NewInt_def eval_nat_numeral)
  ultimately have 3: "\<exists>h' p. SpongeHashX_st small_constants [5, 7] [Some 0, Some 1] 3 = (h', Inr p)"
    by simp
  from 1 2 3 inst show ?thesis by auto
qed

end
